theory Spec2Isabelle
  imports Complex_Main
begin

section \<open>Data model\<close>

text \<open>
  A \<open>time.Time\<close> is an instant, counted in nanoseconds; a \<open>time.Duration\<close> is a number of
  nanoseconds. The calendar day of an instant (in UTC, the location \<open>time.Parse\<close> gives a
  date without a zone) is its quotient by 24 hours.
\<close>

type_synonym time = int

definition Hour :: int where
  "Hour = 3600 * 1000000000"

definition day_of :: "time \<Rightarrow> int" where
  "day_of t = t div (24 * Hour)"

text \<open>
  Go \<open>error\<close> values. \<open>UrlError e\<close> is the \<open>*url.Error\<close> in which \<open>http.Client\<close> wraps
  every error of its transport; \<open>ErrWrap m e\<close> is \<open>fmt.Errorf(m + ": %v", e)\<close>.
\<close>

datatype goerr =
    ErrNotExist
  | ErrRead
  | ErrJSON
  | errExpiredToken
  | ErrNoAuthCode
  | ErrOther string
  | ErrWrap string goerr
  | UrlError goerr

record token =
  AccessToken :: string
  RefreshToken :: string
  Expiry :: time

record response =
  StatusCode :: nat
  Body :: string

text \<open>
  A finite \<open>float64\<close>: its sign bit and the absolute value it denotes. JSON numbers decode
  to finite values only.
\<close>

record float64 =
  negative :: bool
  magnitude :: rat

record weight =
  Bmi :: float64
  Date :: string
  Logid :: nat
  Time :: string
  Weight :: float64

record timeSeriesEntry =
  DateTime :: string
  Value :: string

text \<open>The two URLs the program requests; the end date of a weight-log request is kept as
  the instant whose formatted date goes into the URL.\<close>

datatype request = TimeSeriesReq | WeightLogReq time

datatype fatal =
    FatalNoSecret
  | FatalNoKey
  | FatalErr goerr
  | FatalReauth goerr goerr
  | FatalParse string goerr

text \<open>How a run ends: \<open>main\<close> returns, \<open>os.Exit\<close>, \<open>log.Fatal\<close>, a runtime panic; \<open>OutOfFuel\<close>
  stands for a date-window loop that has not ended within the given number of iterations.\<close>

datatype outcome = Returned | Exit nat | Fatal fatal | Panic | OutOfFuel

datatype 'a res = Ok 'a | Abort outcome

text \<open>The history of a run: the calls of the program to the outside and the errors they
  returned, in order.\<close>

datatype event =
    Get request
  | GetError goerr
  | TokenError goerr
  | DecodeError goerr
  | Authorize
  | AuthorizeError goerr
  | WriteFile string
  | Stdout string
  | Log string

datatype fstate = Absent | Unreadable | Content string

type_synonym accessToken = "string \<times> string"

record FileTokenSource =
  CacheFile :: string
  AuthCode :: bool

datatype client =
    CacherClient token
  | FileSourceClient FileTokenSource
  | OAuth1Client accessToken

text \<open>
  The state of a run. \<open>tick\<close> counts the consultations of the outside world, \<open>cache_file\<close>
  is the file at the token cache path, \<open>mux_registered\<close> says that a handler for the
  pattern \<open>/\<close> is registered on the default \<open>ServeMux\<close>, \<open>reuse_t\<close> is the token held by
  \<open>oauth2.ReuseTokenSource\<close>.
\<close>

record state =
  tick :: nat
  cache_file :: fstate
  mux_registered :: bool
  reuse_t :: "token option"
  trace :: "event list"

text \<open>
  The flags, the library functions the program calls, and the outside world. An answer of
  the outside world (the network, the user, the clock, the file system on a write) is a
  function of the number of consultations made before it.
\<close>

record env =
  clientSecret :: string
  cachePath :: string
  consumerKey :: string
  consumerSecret :: string
  accessTokenToken :: string
  accessTokenSecret :: string
  json_Unmarshal_token :: "string \<Rightarrow> token option"
  json_Marshal_token :: "token \<Rightarrow> string option"
  Decode_timeseries :: "string \<Rightarrow> goerr + timeSeriesEntry list"
  Decode_weights :: "string \<Rightarrow> weight list \<Rightarrow> goerr + weight list"
  time_Parse :: "string \<Rightarrow> goerr + time"
  time_Format :: "time \<Rightarrow> string"
  token_Valid :: "token \<Rightarrow> time \<Rightarrow> bool"
  url_query_code :: "string \<Rightarrow> string option"
  strings_TrimSpace :: "string \<Rightarrow> string"
  AuthCodeURL :: string
  time_Now :: "nat \<Rightarrow> time"
  WriteFile_error :: "nat \<Rightarrow> goerr option"
  Source_Token :: "token \<Rightarrow> nat \<Rightarrow> goerr + token"
  Base_RoundTrip :: "nat \<Rightarrow> string \<Rightarrow> goerr + response"
  authorize_select :: "nat \<Rightarrow> goerr + token"
  stdin_line :: "nat \<Rightarrow> string"
  Exchange :: "nat \<Rightarrow> string \<Rightarrow> goerr + token"
  Consumer_Get :: "nat \<Rightarrow> string \<Rightarrow> accessToken \<Rightarrow> (response option \<times> goerr) + response"
  GetRequestTokenAndUrl :: "nat \<Rightarrow> goerr + (string \<times> string)"
  AuthorizeToken :: "nat \<Rightarrow> string \<Rightarrow> string \<Rightarrow> goerr + accessToken"

definition emit :: "event \<Rightarrow> state \<Rightarrow> state" where
  "emit e st = st\<lparr>trace := trace st @ [e]\<rparr>"

definition step :: "state \<Rightarrow> state" where
  "step st = st\<lparr>tick := Suc (tick st)\<rparr>"

definition url_of :: "env \<Rightarrow> request \<Rightarrow> string" where
  "url_of env r =
     (case r of
        TimeSeriesReq \<Rightarrow> ''https://api.fitbit.com/1/user/-/body/weight/date/today/max.json''
      | WeightLogReq endDate \<Rightarrow>
          ''https://api.fitbit.com/1/user/-/body/log/weight/date/'' @ time_Format env endDate
            @ ''/30d.json'')"

section \<open>Printing a weight entry\<close>

definition digit :: "nat \<Rightarrow> char" where
  "digit d = ''0123456789'' ! (d mod 10)"

fun decimal :: "nat \<Rightarrow> string" where
  "decimal n = (if n < 10 then [digit n] else decimal (n div 10) @ [digit (n mod 10)])"

declare decimal.simps [simp del]

definition round_half_even :: "rat \<Rightarrow> int" where
  "round_half_even q =
     (let f = \<lfloor>q\<rfloor>; r = q - of_int f in
      if r < 1 / 2 then f
      else if 1 / 2 < r then f + 1
      else if even f then f else f + 1)"

text \<open>The verb \<open>%.1f\<close>: the sign, the integer part in decimal, a point, and one digit, the
  value rounded to the nearest tenth (a tie goes to the even digit).\<close>

definition format_1f :: "float64 \<Rightarrow> string" where
  "format_1f x =
     (let n = nat (round_half_even (\<bar>magnitude x\<bar> * 10)) in
      (if negative x then ''-'' else '''') @ decimal (n div 10) @ ''.'' @ [digit (n mod 10)])"

text \<open>The slice expression \<open>s[0:5]\<close> panics when \<open>s\<close> has fewer than five bytes.\<close>

definition slice_0_5 :: "string \<Rightarrow> string option" where
  "slice_0_5 s = (if 5 \<le> length s then Some (take 5 s) else None)"

text \<open>\<open>fmt.Printf("%s %s %.1f\n", entry.Date, entry.Time[0:5], entry.Weight)\<close>\<close>

definition print_entry :: "weight \<Rightarrow> state \<Rightarrow> outcome option \<times> state" where
  "print_entry entry st =
     (case slice_0_5 (Time entry) of
        None \<Rightarrow> (Some Panic, st)
      | Some hhmm \<Rightarrow>
          (None, emit (Stdout (Date entry @ '' '' @ hhmm @ '' '' @ format_1f (Weight entry)
                                @ ''\<newline>'')) st))"

text \<open>\<open>for _, entry := range weights.Weights\<close>\<close>

fun print_weights :: "weight list \<Rightarrow> state \<Rightarrow> outcome option \<times> state" where
  "print_weights [] st = (None, st)"
| "print_weights (entry # rest) st =
     (case print_entry entry st of
        (Some out, st1) \<Rightarrow> (Some out, st1)
      | (None, st1) \<Rightarrow> print_weights rest st1)"

section \<open>The token cache and the caching transport (backup.go)\<close>

definition tokenFromFile :: "env \<Rightarrow> state \<Rightarrow> goerr + token" where
  "tokenFromFile env st =
     (case cache_file st of
        Absent \<Rightarrow> Inl ErrNotExist
      | Unreadable \<Rightarrow> Inl ErrRead
      | Content content \<Rightarrow>
          (case json_Unmarshal_token env content of
             None \<Rightarrow> Inl ErrJSON
           | Some t \<Rightarrow> Inr t))"

text \<open>\<open>c.Base.Source.Token()\<close>: the token source answers with a token or an error.\<close>

definition Source_Token_call :: "env \<Rightarrow> token \<Rightarrow> state \<Rightarrow> (goerr + token) \<times> state" where
  "Source_Token_call env tok st =
     (case Source_Token env tok (tick st) of
        Inl err \<Rightarrow> (Inl err, emit (TokenError err) (step st))
      | Inr t \<Rightarrow> (Inr t, step st))"

text \<open>\<open>ioutil.WriteFile(path, bytes, 0600)\<close> on the cache path.\<close>

definition ioutil_WriteFile :: "env \<Rightarrow> string \<Rightarrow> state \<Rightarrow> goerr option \<times> state" where
  "ioutil_WriteFile env bytes st =
     (case WriteFile_error env (tick st) of
        Some err \<Rightarrow> (Some err, step st)
      | None \<Rightarrow> (None, emit (WriteFile bytes) ((step st)\<lparr>cache_file := Content bytes\<rparr>)))"

text \<open>\<open>cacherTransport.RoundTrip\<close> from the first call of the token source on.\<close>

definition RoundTrip_cached ::
  "env \<Rightarrow> token \<Rightarrow> token option \<Rightarrow> state \<Rightarrow> string \<Rightarrow> (goerr + response) \<times> state" where
  "RoundTrip_cached env tok cachedToken st url =
     (case Source_Token_call env tok st of
        (Inl _, st1) \<Rightarrow> (Inl errExpiredToken, st1)
      | (Inr _, st1) \<Rightarrow>
          (case Base_RoundTrip env (tick st1) url of
             Inl err \<Rightarrow> (Inl err, step st1)
           | Inr resp \<Rightarrow>
               (case Source_Token_call env tok (step st1) of
                  (Inl _, st2) \<Rightarrow> (Inr resp, st2)
                | (Inr newTok, st2) \<Rightarrow>
                    if (case cachedToken of
                          None \<Rightarrow> True
                        | Some ct \<Rightarrow> AccessToken ct \<noteq> AccessToken newTok \<or>
                                     RefreshToken ct \<noteq> RefreshToken newTok)
                    then (case json_Marshal_token env newTok of
                            None \<Rightarrow> (Inl ErrJSON, st2)
                          | Some bytes \<Rightarrow>
                              (case ioutil_WriteFile env bytes st2 of
                                 (Some err, st3) \<Rightarrow> (Inl err, st3)
                               | (None, st3) \<Rightarrow> (Inr resp, st3)))
                    else (Inr resp, st2))))"

definition cacher_RoundTrip ::
  "env \<Rightarrow> token \<Rightarrow> state \<Rightarrow> string \<Rightarrow> (goerr + response) \<times> state" where
  "cacher_RoundTrip env tok st url =
     (case tokenFromFile env st of
        Inl err \<Rightarrow>
          if err \<noteq> ErrNotExist then (Inl err, st)
          else RoundTrip_cached env tok None st url
      | Inr cachedToken \<Rightarrow> RoundTrip_cached env tok (Some cachedToken) st url)"

text \<open>
  \<open>authorize\<close>: \<open>http.HandleFunc\<close> panics when the pattern is registered already; then the
  prompt goes to standard output and the \<open>select\<close> waits for a token or an error.
\<close>

definition authorize :: "env \<Rightarrow> state \<Rightarrow> (goerr + token) res \<times> state" where
  "authorize env st =
     (if mux_registered st then (Abort Panic, emit Authorize st)
      else
        (let st1 = emit (Stdout (AuthCodeURL env @ ''\<newline>''))
                     (emit (Stdout ''Please visit the following URL to authorize:\<newline>'')
                        (emit Authorize (st\<lparr>mux_registered := True\<rparr>)))
         in case authorize_select env (tick st1) of
              Inl err \<Rightarrow> (Ok (Inl err), emit (AuthorizeError err) (step st1))
            | Inr token \<Rightarrow> (Ok (Inr token), step st1)))"

section \<open>The file token source (second variant)\<close>

definition cachedToken :: "env \<Rightarrow> state \<Rightarrow> (goerr + token) \<times> state" where
  "cachedToken env st =
     (case cache_file st of
        Absent \<Rightarrow> (Inl ErrNotExist, st)
      | Unreadable \<Rightarrow> (Inl ErrRead, st)
      | Content tokenData \<Rightarrow>
          (case json_Unmarshal_token env tokenData of
             None \<Rightarrow> (Inl ErrJSON, st)
           | Some tok \<Rightarrow>
               if \<not> token_Valid env tok (time_Now env (tick st)) then
                 (if Expiry tok < time_Now env (tick (step st))
                  then (Inl errExpiredToken, step (step st))
                  else (Inl (ErrOther ''invalid token''), step (step st)))
               else (Inr tok, step st)))"

text \<open>The \<open>AuthCode\<close> closure of \<open>main\<close>: prompt on standard output, one line from standard
  input, the \<open>code\<close> parameter of the line read as a URL, or the line trimmed.\<close>

definition AuthCode_prompt :: "env \<Rightarrow> state \<Rightarrow> string \<times> state" where
  "AuthCode_prompt env st =
     (let st1 = emit (Stdout ''Enter auth code (or entire URL):\<newline>'')
                  (emit (Stdout (AuthCodeURL env @ ''\<newline>''))
                     (emit (Stdout ''Get auth code from:\<newline>'') (emit Authorize st)));
          text = stdin_line env (tick st1)
      in ((case url_query_code env text of
             Some c \<Rightarrow> if c \<noteq> [] then c else strings_TrimSpace env text
           | None \<Rightarrow> strings_TrimSpace env text),
          step st1))"

text \<open>\<open>FileTokenSource.Token\<close> from the test of \<open>src.AuthCode\<close> on.\<close>

definition Token_exchange :: "env \<Rightarrow> FileTokenSource \<Rightarrow> state \<Rightarrow> (goerr + token) \<times> state" where
  "Token_exchange env src st =
     (if \<not> AuthCode src then (Inl ErrNoAuthCode, st)
      else
        (case AuthCode_prompt env st of
           (code, st1) \<Rightarrow>
             (case Exchange env (tick st1) code of
                Inl err \<Rightarrow>
                  (Inl (ErrWrap ''could not exchange auth code for a token'' err),
                   emit (AuthorizeError err) (step st1))
              | Inr tok \<Rightarrow>
                  if CacheFile src = [] then (Inr tok, step st1)
                  else
                    (case json_Marshal_token env tok of
                       None \<Rightarrow> (Inl (ErrWrap ''could not encode token as json'' ErrJSON), step st1)
                     | Some tokenData \<Rightarrow>
                         (case ioutil_WriteFile env tokenData (step st1) of
                            (Some err, st2) \<Rightarrow> (Inl (ErrWrap ''could not cache token'' err), st2)
                          | (None, st2) \<Rightarrow> (Inr tok, st2))))))"

definition FileTokenSource_Token ::
  "env \<Rightarrow> FileTokenSource \<Rightarrow> state \<Rightarrow> (goerr + token) \<times> state" where
  "FileTokenSource_Token env src st =
     (if CacheFile src \<noteq> [] then
        (case cachedToken env st of
           (Inr tok, st1) \<Rightarrow> (Inr tok, st1)
         | (Inl err, st1) \<Rightarrow>
             Token_exchange env src
               (if err \<noteq> errExpiredToken then emit (Log ''Error getting token'') st1 else st1))
      else Token_exchange env src st)"

text \<open>\<open>oauth2.ReuseTokenSource(nil, src)\<close>: the token held is returned while it is valid,
  a new one is asked of \<open>src\<close> otherwise.\<close>

definition ReuseTokenSource_Token ::
  "env \<Rightarrow> FileTokenSource \<Rightarrow> state \<Rightarrow> (goerr + token) \<times> state" where
  "ReuseTokenSource_Token env src st =
     (let renew = (\<lambda>s. case FileTokenSource_Token env src s of
                         (Inl err, s1) \<Rightarrow> (Inl err, s1)
                       | (Inr t, s1) \<Rightarrow> (Inr t, s1\<lparr>reuse_t := Some t\<rparr>))
      in case reuse_t st of
           None \<Rightarrow> renew st
         | Some t \<Rightarrow>
             if token_Valid env t (time_Now env (tick st)) then (Inr t, step st)
             else renew (step st))"

definition oauth2_RoundTrip ::
  "env \<Rightarrow> FileTokenSource \<Rightarrow> state \<Rightarrow> string \<Rightarrow> (goerr + response) \<times> state" where
  "oauth2_RoundTrip env src st url =
     (case ReuseTokenSource_Token env src st of
        (Inl err, st1) \<Rightarrow> (Inl err, st1)
      | (Inr _, st1) \<Rightarrow> (Base_RoundTrip env (tick st1) url, step st1))"

section \<open>The three clients\<close>

text \<open>\<open>oauth.Consumer.Get\<close> (third variant): on an HTTP status outside 2xx it returns the
  response together with the error, on a network error no response.\<close>

definition oauth1_Get ::
  "env \<Rightarrow> accessToken \<Rightarrow> state \<Rightarrow> request
     \<Rightarrow> ((response option \<times> goerr) + response) \<times> state" where
  "oauth1_Get env accessToken st r =
     (let st0 = emit (Get r) st in
      case Consumer_Get env (tick st0) (url_of env r) accessToken of
        Inl (resp, err) \<Rightarrow> (Inl (resp, err), emit (GetError err) (step st0))
      | Inr resp \<Rightarrow> (Inr resp, step st0))"

text \<open>\<open>http.Client.Get\<close> wraps the error of its transport in a \<open>*url.Error\<close>.\<close>

definition http_Client_Get ::
  "(state \<Rightarrow> string \<Rightarrow> (goerr + response) \<times> state) \<Rightarrow> env \<Rightarrow> state \<Rightarrow> request
     \<Rightarrow> (goerr + response) \<times> state" where
  "http_Client_Get transport env st r =
     (case transport (emit (Get r) st) (url_of env r) of
        (Inl err, st1) \<Rightarrow> (Inl (UrlError err), emit (GetError (UrlError err)) st1)
      | (Inr resp, st1) \<Rightarrow> (Inr resp, st1))"

definition client_Get ::
  "env \<Rightarrow> client \<Rightarrow> state \<Rightarrow> request \<Rightarrow> (goerr + response) \<times> state" where
  "client_Get env c st r =
     (case c of
        CacherClient tok \<Rightarrow> http_Client_Get (cacher_RoundTrip env tok) env st r
      | FileSourceClient src \<Rightarrow> http_Client_Get (oauth2_RoundTrip env src) env st r
      | OAuth1Client accessToken \<Rightarrow>
          (case oauth1_Get env accessToken st r of
             (Inl (_, err), st1) \<Rightarrow> (Inl err, st1)
           | (Inr resp, st1) \<Rightarrow> (Inr resp, st1)))"

section \<open>The shared part of \<open>main\<close>\<close>

text \<open>
  The date-window loop. \<open>weights\<close> is the variable the replies are decoded into; it is
  declared once, so the decoder finds in it what the previous reply left there.
\<close>

fun window_loop ::
  "nat \<Rightarrow> env \<Rightarrow> client \<Rightarrow> state \<Rightarrow> time \<Rightarrow> weight list \<Rightarrow> outcome \<times> state" where
  "window_loop 0 env c st endDate weights = (OutOfFuel, st)"
| "window_loop (Suc fuel) env c st endDate weights =
     (if endDate < time_Now env (tick st) then
        (case client_Get env c (step st) (WeightLogReq (endDate + 30 * 24 * Hour)) of
           (Inl err, st1) \<Rightarrow> (Fatal (FatalErr err), st1)
         | (Inr response, st1) \<Rightarrow>
             (case Decode_weights env (Body response) weights of
                Inl err \<Rightarrow> (Fatal (FatalErr err), emit (DecodeError err) st1)
              | Inr weights' \<Rightarrow>
                  (case print_weights weights' st1 of
                     (Some out, st2) \<Rightarrow> (out, st2)
                   | (None, st2) \<Rightarrow>
                       window_loop fuel env c st2 (endDate + 30 * 24 * Hour) weights')))
      else (Returned, step st))"

text \<open>\<open>main\<close> from the decoding of the time-series reply to its end.\<close>

definition main_rest :: "env \<Rightarrow> client \<Rightarrow> nat \<Rightarrow> response \<Rightarrow> state \<Rightarrow> outcome \<times> state" where
  "main_rest env c fuel response st =
     (case Decode_timeseries env (Body response) of
        Inl err \<Rightarrow> (Fatal (FatalErr err), emit (DecodeError err) st)
      | Inr Entries \<Rightarrow>
          if length Entries = 0
          then (Exit 0, emit (Log ''The fitbit API returned no values.'') st)
          else
            (case time_Parse env (DateTime (Entries ! 0)) of
               Inl err \<Rightarrow> (Fatal (FatalParse (DateTime (Entries ! 0)) err), st)
             | Inr endDate \<Rightarrow> window_loop fuel env c st (endDate + (- 24) * Hour) []))"

text \<open>The loop \<open>for tries < 2\<close> of the two OAuth 2 variants.\<close>

function tries_loop ::
  "env \<Rightarrow> client \<Rightarrow> nat \<Rightarrow> response option \<Rightarrow> state \<Rightarrow> response option res \<times> state" where
  "tries_loop env c tries response st =
     (if tries < 2 then
        (case client_Get env c st TimeSeriesReq of
           (Inl err, st1) \<Rightarrow> (Abort (Fatal (FatalErr err)), st1)
         | (Inr response', st1) \<Rightarrow> tries_loop env c (tries + 1) (Some response') st1)
      else (Ok response, st))"
  by pat_completeness auto
termination
  by (relation "measure (\<lambda>(env, c, tries, response, st). 2 - tries)") auto

declare tries_loop.simps [simp del]

definition main_body :: "env \<Rightarrow> client \<Rightarrow> nat \<Rightarrow> state \<Rightarrow> outcome \<times> state" where
  "main_body env c fuel st =
     (case tries_loop env c 0 None st of
        (Abort out, st1) \<Rightarrow> (out, st1)
      | (Ok None, st1) \<Rightarrow> (Panic, st1)
      | (Ok (Some response), st1) \<Rightarrow> main_rest env c fuel response st1)"

section \<open>\<open>main\<close> of backup.go\<close>

text \<open>The token the client is built from: the cached one, or a new one from \<open>authorize\<close>
  when the cache file does not exist.\<close>

definition initial_token :: "env \<Rightarrow> state \<Rightarrow> token res \<times> state" where
  "initial_token env st =
     (case tokenFromFile env st of
        Inr token \<Rightarrow> (Ok token, st)
      | Inl err \<Rightarrow>
          if err = ErrNotExist then
            (case authorize env st of
               (Abort out, st1) \<Rightarrow> (Abort out, st1)
             | (Ok (Inl err'), st1) \<Rightarrow> (Abort (Fatal (FatalErr err')), st1)
             | (Ok (Inr token), st1) \<Rightarrow> (Ok token, st1))
          else (Abort (Fatal (FatalErr err)), st))"

text \<open>The request sent to detect an expired token, and the re-authorization.\<close>

definition probe :: "env \<Rightarrow> client \<Rightarrow> state \<Rightarrow> client res \<times> state" where
  "probe env c st =
     (case client_Get env c st TimeSeriesReq of
        (Inr _, st1) \<Rightarrow> (Ok c, st1)
      | (Inl err, st1) \<Rightarrow>
          if (case err of UrlError e \<Rightarrow> e \<noteq> errExpiredToken | _ \<Rightarrow> True)
          then (Abort (Fatal (FatalErr err)), st1)
          else
            (case authorize env st1 of
               (Abort out, st2) \<Rightarrow> (Abort out, st2)
             | (Ok (Inr token), st2) \<Rightarrow> (Ok (CacherClient token), st2)
             | (Ok (Inl tokenErr), st2) \<Rightarrow> (Abort (Fatal (FatalReauth err tokenErr)), st2)))"

definition main_backup :: "env \<Rightarrow> nat \<Rightarrow> state \<Rightarrow> outcome \<times> state" where
  "main_backup env fuel st =
     (if clientSecret env = [] then (Fatal FatalNoSecret, st)
      else
        (case initial_token env st of
           (Abort out, st1) \<Rightarrow> (out, st1)
         | (Ok token, st1) \<Rightarrow>
             (case probe env (CacherClient token) st1 of
                (Abort out, st2) \<Rightarrow> (out, st2)
              | (Ok c, st2) \<Rightarrow> main_body env c fuel st2)))"

section \<open>\<open>main\<close> of the file token source variant\<close>

definition main_filesource :: "env \<Rightarrow> nat \<Rightarrow> state \<Rightarrow> outcome \<times> state" where
  "main_filesource env fuel st =
     (if clientSecret env = [] then (Fatal FatalNoSecret, st)
      else main_body env (FileSourceClient \<lparr>CacheFile = cachePath env, AuthCode = True\<rparr>) fuel st)"

section \<open>\<open>main\<close> of the OAuth 1 variant\<close>

text \<open>The re-authorization inside the loop: request token, prompt, verification code from
  standard input, access token.\<close>

definition reauthorize_oauth1 :: "env \<Rightarrow> state \<Rightarrow> accessToken res \<times> state" where
  "reauthorize_oauth1 env st =
     (case GetRequestTokenAndUrl env (tick (emit Authorize st)) of
        Inl err \<Rightarrow>
          (Abort (Fatal (FatalErr err)), emit (AuthorizeError err) (step (emit Authorize st)))
      | Inr (requestToken, url) \<Rightarrow>
          (let st1 = emit (Stdout ''(3) Enter that verification code here: \<newline>'')
                       (emit (Stdout ''(2) Grant access, you should get back a verification code.\<newline>'')
                          (emit (Stdout (''(1) Go to: '' @ url @ ''\<newline>''))
                             (step (emit Authorize st))));
               verificationCode = stdin_line env (tick st1)
           in case AuthorizeToken env (tick (step st1)) requestToken verificationCode of
                Inl err \<Rightarrow>
                  (Abort (Fatal (FatalErr err)), emit (AuthorizeError err) (step (step st1)))
              | Inr accessToken \<Rightarrow>
                  (Ok accessToken,
                   emit (Log (''Use -access_token_token='' @ fst accessToken
                                @ '' -access_token_secret='' @ snd accessToken))
                     (step (step st1)))))"

function tries_loop_oauth1 ::
  "env \<Rightarrow> nat \<Rightarrow> response option \<Rightarrow> accessToken \<Rightarrow> state
     \<Rightarrow> (response option \<times> accessToken) res \<times> state" where
  "tries_loop_oauth1 env tries response accessToken st =
     (if tries < 2 then
        (case oauth1_Get env accessToken st TimeSeriesReq of
           (Inr response', st1) \<Rightarrow>
             tries_loop_oauth1 env (tries + 1) (Some response') accessToken st1
         | (Inl (response', err), st1) \<Rightarrow>
             if tries + 1 = 1 then
               (case response' of
                  None \<Rightarrow> (Abort Panic, st1)
                | Some r \<Rightarrow>
                    if StatusCode r = 401 then
                      (case reauthorize_oauth1 env st1 of
                         (Abort out, st2) \<Rightarrow> (Abort out, st2)
                       | (Ok accessToken', st2) \<Rightarrow>
                           tries_loop_oauth1 env (tries + 1) response' accessToken' st2)
                    else (Abort (Fatal (FatalErr err)), st1))
             else (Abort (Fatal (FatalErr err)), st1))
      else (Ok (response, accessToken), st))"
  by pat_completeness auto
termination
  by (relation "measure (\<lambda>(env, tries, response, accessToken, st). 2 - tries)") auto

declare tries_loop_oauth1.simps [simp del]

definition main_oauth1 :: "env \<Rightarrow> nat \<Rightarrow> state \<Rightarrow> outcome \<times> state" where
  "main_oauth1 env fuel st =
     (if consumerKey env = [] \<or> consumerSecret env = [] then (Fatal FatalNoKey, st)
      else
        (case tries_loop_oauth1 env 0 None (accessTokenToken env, accessTokenSecret env) st of
           (Abort out, st1) \<Rightarrow> (out, st1)
         | (Ok (None, accessToken), st1) \<Rightarrow> (Panic, st1)
         | (Ok (Some response, accessToken), st1) \<Rightarrow>
             main_rest env (OAuth1Client accessToken) fuel response st1))"

section \<open>Notions the claims are stated with, and concrete runs\<close>

text \<open>Kinds of events: the requests; the failures a run can die of (a failed request, a reply
  that does not decode, a failed authorization).\<close>

fun is_get :: "event \<Rightarrow> bool" where
  "is_get (Get _) = True"
| "is_get _ = False"

fun is_failure :: "event \<Rightarrow> bool" where
  "is_failure (GetError _) = True"
| "is_failure (DecodeError _) = True"
| "is_failure (AuthorizeError _) = True"
| "is_failure _ = False"

text \<open>What can happen inside one request: anything but a request, its failure or a decoding
  failure (\<open>is_inner\<close>); for the caching transport and the OAuth 1 consumer only token-source
  errors and writes of the cache file, to which printing and logging are added (\<open>is_quiet\<close>).
  \<open>extends P st st'\<close>: the history of \<open>st'\<close> is that of \<open>st\<close> followed by events of kind \<open>P\<close>.\<close>

fun is_inner :: "event \<Rightarrow> bool" where
  "is_inner (Get _) = False"
| "is_inner (GetError _) = False"
| "is_inner (DecodeError _) = False"
| "is_inner _ = True"

fun is_quiet :: "event \<Rightarrow> bool" where
  "is_quiet (TokenError _) = True"
| "is_quiet (WriteFile _) = True"
| "is_quiet (Stdout _) = True"
| "is_quiet (Log _) = True"
| "is_quiet _ = False"

definition extends :: "(event \<Rightarrow> bool) \<Rightarrow> state \<Rightarrow> state \<Rightarrow> bool" where
  "extends P st st' = (\<exists>evs. trace st' = trace st @ evs \<and> (\<forall>e \<in> set evs. P e))"

text \<open>The end dates of the body-weight log requests of a history, in order.\<close>

fun end_dates :: "event list \<Rightarrow> time list" where
  "end_dates [] = []"
| "end_dates (Get (WeightLogReq endDate) # evs) = endDate # end_dates evs"
| "end_dates (_ # evs) = end_dates evs"

text \<open>
  The window of a request \<open>.../date/<end date>/30d.json\<close>: the 30 calendar days that end with
  the end date, that is the end date and the 29 days before it. A day is covered by a
  history when it lies in the window of one of its requests.
\<close>

definition in_window :: "time \<Rightarrow> int \<Rightarrow> bool" where
  "in_window endDate d = (day_of endDate - 29 \<le> d \<and> d \<le> day_of endDate)"

definition covered :: "event list \<Rightarrow> int \<Rightarrow> bool" where
  "covered tr d = (\<exists>endDate \<in> set (end_dates tr). in_window endDate d)"

text \<open>The number of 30-day steps that take \<open>endDate\<close> to \<open>now\<close> or beyond.\<close>

definition iterations :: "time \<Rightarrow> time \<Rightarrow> nat" where
  "iterations now endDate = nat ((now - endDate + 30 * 24 * Hour - 1) div (30 * 24 * Hour))"

text \<open>
  A concrete world for running the program: a cache file that holds a token, a server that
  answers the time-series request with one entry dated 1970-01-11 (day 10) and every
  body-weight log request with two entries, a clock that stands at noon of day 20, and a
  user who authorizes. Dates are formatted as day numbers here. The variations: a weight
  entry with a short time, a token the library finds valid, a token source that fails at
  its first call, or at its first and at the call after the last round trip, a user who
  refuses, a network that refuses.
\<close>

definition tok0 :: token where
  "tok0 = \<lparr>AccessToken = ''a'', RefreshToken = ''r'', Expiry = 0\<rparr>"

definition w1 :: weight where
  "w1 = \<lparr>Bmi = \<lparr>negative = False, magnitude = 21\<rparr>, Date = ''2013-07-30'', Logid = 1,
          Time = ''18:00:00'', Weight = \<lparr>negative = False, magnitude = 659 / 10\<rparr>\<rparr>"

definition w2 :: weight where
  "w2 = \<lparr>Bmi = \<lparr>negative = False, magnitude = 21\<rparr>, Date = ''2013-07-30'', Logid = 2,
          Time = ''23:59:59'', Weight = \<lparr>negative = False, magnitude = 653 / 10\<rparr>\<rparr>"

definition env0 :: env where
  "env0 = \<lparr>
     clientSecret = ''secret'', cachePath = ''token.json'',
     consumerKey = ''key'', consumerSecret = ''secret'',
     accessTokenToken = ''tok'', accessTokenSecret = ''sec'',
     json_Unmarshal_token = (\<lambda>s. if s = ''a/r'' then Some tok0 else None),
     json_Marshal_token = (\<lambda>t. Some (AccessToken t @ ''/'' @ RefreshToken t)),
     Decode_timeseries = (\<lambda>b. if b = ''ts'' then Inr [\<lparr>DateTime = ''1970-01-11'', Value = ''65.9''\<rparr>]
                                else if b = ''w'' then Inr [] else Inl ErrJSON),
     Decode_weights = (\<lambda>b old. if b = ''w'' then Inr [w1, w2] else if b = ''ts'' then Inr old else Inl ErrJSON),
     time_Parse = (\<lambda>s. if s = ''1970-01-11'' then Inr (10 * 24 * Hour) else Inl (ErrOther ''parse'')),
     time_Format = (\<lambda>t. decimal (nat (day_of t))),
     token_Valid = (\<lambda>t now. AccessToken t \<noteq> [] \<and> now < Expiry t),
     url_query_code = (\<lambda>s. None),
     strings_TrimSpace = (\<lambda>s. s),
     AuthCodeURL = ''https://www.fitbit.com/oauth2/authorize'',
     time_Now = (\<lambda>n. 20 * 24 * Hour + 12 * Hour),
     WriteFile_error = (\<lambda>n. None),
     Source_Token = (\<lambda>tok n. Inr tok),
     Base_RoundTrip = (\<lambda>n url. Inr \<lparr>StatusCode = 200,
        Body = (if url = ''https://api.fitbit.com/1/user/-/body/weight/date/today/max.json'' then ''ts'' else ''w'')\<rparr>),
     authorize_select = (\<lambda>n. Inr tok0),
     stdin_line = (\<lambda>n. ''code''),
     Exchange = (\<lambda>n code. Inr tok0),
     Consumer_Get = (\<lambda>n url tk. Inr \<lparr>StatusCode = 200,
        Body = (if url = ''https://api.fitbit.com/1/user/-/body/weight/date/today/max.json'' then ''ts'' else ''w'')\<rparr>),
     GetRequestTokenAndUrl = (\<lambda>n. Inr (''rt'', ''https://www.fitbit.com/oauth/authorize'')),
     AuthorizeToken = (\<lambda>n rt code. Inr (''tok2'', ''sec2''))\<rparr>"

definition st0 :: state where
  "st0 = \<lparr>tick = 0, cache_file = Content ''a/r'', mux_registered = False, reuse_t = None, trace = []\<rparr>"

definition resp_ts :: response where
  "resp_ts = \<lparr>StatusCode = 200, Body = ''ts''\<rparr>"

definition resp_w :: response where
  "resp_w = \<lparr>StatusCode = 200, Body = ''w''\<rparr>"

definition w_short :: weight where
  "w_short = \<lparr>Bmi = \<lparr>negative = False, magnitude = 21\<rparr>, Date = ''2013-07-31'', Logid = 3,
               Time = ''9:05'', Weight = \<lparr>negative = False, magnitude = 66\<rparr>\<rparr>"

definition env_short :: env where
  "env_short = env0\<lparr>Decode_weights := (\<lambda>b old. Inr [w1, w_short, w2])\<rparr>"

definition src0 :: FileTokenSource where
  "src0 = \<lparr>CacheFile = ''token.json'', AuthCode = True\<rparr>"

definition st_absent :: state where
  "st_absent = st0\<lparr>cache_file := Absent\<rparr>"

definition env_expired :: env where
  "env_expired = env0\<lparr>Source_Token :=
     (\<lambda>tok n. if n = 0 then Inl (ErrOther ''refresh failed'') else Inr tok)\<rparr>"

definition env_swallow :: env where
  "env_swallow = env0\<lparr>Source_Token :=
     (\<lambda>tok n. if n = 0 \<or> n = 11 then Inl (ErrOther ''refresh failed'') else Inr tok)\<rparr>"


definition env_refused :: env where
  "env_refused = env0\<lparr>Base_RoundTrip := (\<lambda>n url. Inl (ErrOther ''connection refused''))\<rparr>"

text \<open>A world whose token source knows the cached token only and whose user refuses to
  authorize, and one whose library finds every token valid at every time.\<close>

definition env_keyed :: env where
  "env_keyed = env0\<lparr>Source_Token :=
     (\<lambda>tok n. if AccessToken tok = ''a'' then Inr tok else Inl (ErrOther ''unknown token'')),
     authorize_select := (\<lambda>n. Inl (ErrOther ''access denied''))\<rparr>"

definition env_always_valid :: env where
  "env_always_valid = env0\<lparr>token_Valid := (\<lambda>t now. True)\<rparr>"

text \<open>\<open>one_prompt st st' failed\<close>: from \<open>st\<close> to \<open>st'\<close> the history has grown by events among which
  there is no request, at most one call for authorization, and a failed authorization only
  when \<open>failed\<close> holds.\<close>

definition one_prompt :: "state \<Rightarrow> state \<Rightarrow> bool \<Rightarrow> bool" where
  "one_prompt st st' failed =
     (\<exists>evs. trace st' = trace st @ evs \<and> count_list evs Authorize \<le> 1 \<and> filter is_get evs = [] \<and>
            ((\<forall>e. AuthorizeError e \<notin> set evs) \<or> failed))"

section \<open>Properties\<close>

lemma trace_emit [simp]: "trace (emit e st) = trace st @ [e]"
  and tick_emit [simp]: "tick (emit e st) = tick st"
  and cache_emit [simp]: "cache_file (emit e st) = cache_file st"
  and mux_emit [simp]: "mux_registered (emit e st) = mux_registered st"
  and reuse_emit [simp]: "reuse_t (emit e st) = reuse_t st"
  by (simp_all add: emit_def)

lemma trace_step [simp]: "trace (step st) = trace st"
  and tick_step [simp]: "tick (step st) = Suc (tick st)"
  and cache_step [simp]: "cache_file (step st) = cache_file st"
  and mux_step [simp]: "mux_registered (step st) = mux_registered st"
  and reuse_step [simp]: "reuse_t (step st) = reuse_t st"
  by (simp_all add: step_def)

lemma extends_refl [simp]: "extends P st st"
  by (simp add: extends_def)

lemma extends_trans: "extends P st st1 \<Longrightarrow> extends P st1 st2 \<Longrightarrow> extends P st st2"
  by (auto simp: extends_def)

lemma extends_mono: "extends P st st' \<Longrightarrow> (\<And>e. P e \<Longrightarrow> Q e) \<Longrightarrow> extends Q st st'"
  by (auto simp: extends_def)

lemma extends_emit: "extends P st st1 \<Longrightarrow> P e \<Longrightarrow> extends P st (emit e st1)"
  by (auto simp: extends_def)

lemma extends_step [simp]: "extends P st (step st1) = extends P st st1"
  by (simp add: extends_def)

lemma extends_step_left [simp]: "extends P (step st) st1 = extends P st st1"
  by (simp add: extends_def)

lemma quiet_inner: "is_quiet e \<Longrightarrow> is_inner e"
  by (cases e) auto

lemma extends_update [simp]:
  "extends P st (st1\<lparr>cache_file := f\<rparr>) = extends P st st1"
  "extends P st (st1\<lparr>reuse_t := t\<rparr>) = extends P st st1"
  "extends P st (st1\<lparr>mux_registered := b\<rparr>) = extends P st st1"
  by (simp_all add: extends_def)

lemma extends_from_emit:
  "extends P (emit e st) st' \<Longrightarrow> \<exists>evs. trace st' = trace st @ e # evs \<and> (\<forall>x \<in> set evs. P x)"
  by (auto simp: extends_def)

lemma Source_Token_call_ext:
  "Source_Token_call env tok st = (r, st') \<Longrightarrow> extends is_quiet st st'"
  by (auto simp: Source_Token_call_def extends_emit split: sum.splits)

lemma ioutil_WriteFile_ext:
  "ioutil_WriteFile env bytes st = (r, st') \<Longrightarrow> extends is_quiet st st'"
  by (auto simp: ioutil_WriteFile_def extends_emit split: option.splits)

lemma RoundTrip_cached_ext:
  assumes "RoundTrip_cached env tok ct st url = (r, st')"
  shows "extends is_quiet st st'"
  using assms unfolding RoundTrip_cached_def
  by (auto split: sum.splits option.splits if_splits prod.splits
      dest!: Source_Token_call_ext ioutil_WriteFile_ext intro: extends_trans)
    (blast intro: extends_trans)+

lemma cacher_RoundTrip_ext:
  "cacher_RoundTrip env tok st url = (r, st') \<Longrightarrow> extends is_quiet st st'"
  by (auto simp: cacher_RoundTrip_def split: sum.splits if_splits dest: RoundTrip_cached_ext)

lemma cachedToken_ext: "cachedToken env st = (r, st') \<Longrightarrow> extends is_quiet st st'"
  by (auto simp: cachedToken_def split: fstate.splits option.splits if_splits)

lemma AuthCode_prompt_ext: "AuthCode_prompt env st = (code, st') \<Longrightarrow> extends is_inner st st'"
  by (auto simp: AuthCode_prompt_def Let_def extends_def)

lemma Token_exchange_ext:
  assumes "Token_exchange env src st = (r, st')"
  shows "extends is_inner st st'"
proof -
  obtain code st1 where a: "AuthCode_prompt env st = (code, st1)" by force
  have e1: "extends is_inner st st1" by (rule AuthCode_prompt_ext [OF a])
  have e2: "extends is_inner st st3" if "ioutil_WriteFile env bytes (step st1) = (w, st3)" for bytes w st3
    using extends_trans [OF e1] extends_mono [OF ioutil_WriteFile_ext [OF that], of is_inner]
    by (simp add: quiet_inner)
  show ?thesis
    using assms e1 e2 unfolding Token_exchange_def a
    by (auto split: sum.splits option.splits if_splits prod.splits simp: extends_emit)
qed

lemma FileTokenSource_Token_ext:
  assumes "FileTokenSource_Token env src st = (r, st')"
  shows "extends is_inner st st'"
proof -
  obtain r1 st1 where a: "cachedToken env st = (r1, st1)" by force
  have e1: "extends is_inner st st1"
    using extends_mono [OF cachedToken_ext [OF a], of is_inner] by (simp add: quiet_inner)
  have e2: "extends is_inner st st2" if "Token_exchange env src st1 = (x, st2)" for x st2
    using extends_trans [OF e1 Token_exchange_ext [OF that]] .
  have e3: "extends is_inner st st2"
    if "Token_exchange env src (emit (Log ''Error getting token'') st1) = (x, st2)" for x st2
    using extends_trans [OF extends_emit [OF e1] Token_exchange_ext [OF that]] by simp
  show ?thesis
    using assms e1 e2 e3 unfolding FileTokenSource_Token_def a
    by (auto split: sum.splits if_splits dest: Token_exchange_ext)
qed

lemma ReuseTokenSource_Token_ext:
  assumes "ReuseTokenSource_Token env src st = (r, st')"
  shows "extends is_inner st st'"
  using assms unfolding ReuseTokenSource_Token_def Let_def
  by (auto split: option.splits sum.splits if_splits prod.splits
      dest!: FileTokenSource_Token_ext)

lemma oauth2_RoundTrip_ext:
  "oauth2_RoundTrip env src st url = (r, st') \<Longrightarrow> extends is_inner st st'"
  by (auto simp: oauth2_RoundTrip_def split: prod.splits sum.splits
      dest!: ReuseTokenSource_Token_ext)

lemma http_Client_Get_trace:
  assumes "http_Client_Get transport env st r = (res, st')"
    and "\<And>s url x s'. transport s url = (x, s') \<Longrightarrow> extends P s s'"
  shows "\<exists>mid. trace st' = trace st @ Get r # mid @ (case res of Inl e \<Rightarrow> [GetError e] | Inr _ \<Rightarrow> [])
           \<and> (\<forall>e \<in> set mid. P e)"
proof -
  obtain x s1 where a: "transport (emit (Get r) st) (url_of env r) = (x, s1)" by force
  from extends_from_emit [OF assms(2) [OF a]]
  obtain evs where "trace s1 = trace st @ Get r # evs" "\<forall>e \<in> set evs. P e" by blast
  then show ?thesis
    using assms(1) unfolding http_Client_Get_def a
    by (auto split: sum.splits)
qed

lemma client_Get_trace:
  assumes "client_Get env c st r = (res, st')"
  shows "\<exists>mid. trace st' = trace st @ Get r # mid @ (case res of Inl e \<Rightarrow> [GetError e] | Inr _ \<Rightarrow> [])
           \<and> (\<forall>e \<in> set mid. is_inner e)
           \<and> ((\<forall>src. c \<noteq> FileSourceClient src) \<longrightarrow> (\<forall>e \<in> set mid. is_quiet e))"
proof (cases c)
  case (CacherClient tok)
  from assms have "http_Client_Get (cacher_RoundTrip env tok) env st r = (res, st')"
    by (simp add: client_Get_def CacherClient)
  from http_Client_Get_trace [OF this, of is_quiet] cacher_RoundTrip_ext
  show ?thesis by (blast intro: quiet_inner)
next
  case (FileSourceClient src)
  from assms have "http_Client_Get (oauth2_RoundTrip env src) env st r = (res, st')"
    by (simp add: client_Get_def FileSourceClient)
  from http_Client_Get_trace [OF this, of is_inner] oauth2_RoundTrip_ext
  show ?thesis using FileSourceClient by blast
next
  case (OAuth1Client tk)
  with assms show ?thesis
    by (auto simp: client_Get_def oauth1_Get_def Let_def split: sum.splits prod.splits)
qed



lemma print_entry_ok:
  "5 \<le> length (Time entry) \<Longrightarrow>
   print_entry entry st =
     (None, st\<lparr>trace := trace st @ [Stdout (Date entry @ '' '' @ take 5 (Time entry) @ '' ''
        @ format_1f (Weight entry) @ ''\<newline>'')]\<rparr>)"
  by (simp add: print_entry_def slice_0_5_def emit_def)

lemma print_entry_panic:
  "length (Time entry) < 5 \<Longrightarrow> print_entry entry st = (Some Panic, st)"
  by (simp add: print_entry_def slice_0_5_def)

lemma print_weights_ext: "print_weights ws st = (r, st') \<Longrightarrow> extends is_quiet st st'"
proof (induction ws arbitrary: st)
  case Nil
  then show ?case by simp
next
  case (Cons w ws)
  show ?case
  proof (cases "5 \<le> length (Time w)")
    case True
    with Cons.prems have "print_weights ws (emit (Stdout (Date w @ '' '' @ take 5 (Time w) @ '' ''
        @ format_1f (Weight w) @ ''\<newline>'')) st) = (r, st')"
      by (simp add: print_entry_def slice_0_5_def)
    from Cons.IH [OF this] show ?thesis
      by (auto simp: extends_def)
  next
    case False
    with Cons.prems show ?thesis by (simp add: print_entry_panic)
  qed
qed

lemma inner_not_get: "is_inner e \<Longrightarrow> \<not> is_get e"
  by (cases e) auto

lemma quiet_not_get: "is_quiet e \<Longrightarrow> \<not> is_get e"
  by (cases e) auto

lemma filter_get_inner: "\<forall>e \<in> set evs. is_inner e \<Longrightarrow> filter is_get evs = []"
  by (auto simp: filter_empty_conv inner_not_get)

lemma filter_get_quiet: "\<forall>e \<in> set evs. is_quiet e \<Longrightarrow> filter is_get evs = []"
  by (auto simp: filter_empty_conv quiet_not_get)

lemma client_Get_gets:
  assumes "client_Get env c st r = (res, st')"
  shows "\<exists>evs. trace st' = trace st @ evs \<and> filter is_get evs = [Get r]"
proof -
  from client_Get_trace [OF assms] obtain mid where
    "trace st' = trace st @ Get r # mid @ (case res of Inl e \<Rightarrow> [GetError e] | Inr _ \<Rightarrow> [])"
    "\<forall>e \<in> set mid. is_inner e" by blast
  then show ?thesis
    by (cases res) (auto simp: filter_get_inner)
qed

lemma upt_shift: "map f [1..<Suc (Suc k)] = f 1 # map (\<lambda>i. f (Suc i)) [1..<Suc k]"
proof -
  have "[1..<Suc (Suc k)] = 1 # map Suc [1..<Suc k]"
    by (simp add: map_Suc_upt upt_conv_Cons del: upt_Suc)
  then show ?thesis by (simp add: comp_def del: upt_Suc)
qed

lemma window_loop_gets:
  "window_loop fuel env c st e ws = (out, st') \<Longrightarrow>
   \<exists>evs k. trace st' = trace st @ evs \<and>
     filter is_get evs = map (\<lambda>i. Get (WeightLogReq (e + 30 * 24 * Hour * int i))) [1..<Suc k] \<and>
     (out = Returned \<longrightarrow> (\<exists>n. time_Now env n \<le> e + 30 * 24 * Hour * int k))"
proof (induction fuel arbitrary: st e ws)
  case 0
  then have "trace st' = trace st @ [] \<and> filter is_get [] = map (\<lambda>i. Get (WeightLogReq (e + 30 * 24 * Hour * int i))) [1..<Suc 0]
     \<and> (out = Returned \<longrightarrow> (\<exists>n. time_Now env n \<le> e + 30 * 24 * Hour * int 0))"
    by auto
  then show ?case by blast
next
  case (Suc fuel)
  show ?case
  proof (cases "e < time_Now env (tick st)")
    case False
    with Suc.prems have "trace st' = trace st @ [] \<and> filter is_get [] = map (\<lambda>i. Get (WeightLogReq (e + 30 * 24 * Hour * int i))) [1..<Suc 0]
     \<and> (out = Returned \<longrightarrow> (\<exists>n. time_Now env n \<le> e + 30 * 24 * Hour * int 0))"
      by (auto simp: not_less)
    then show ?thesis by blast
  next
    case True
    obtain res st1 where g: "client_Get env c (step st) (WeightLogReq (e + 30 * 24 * Hour)) = (res, st1)"
      by force
    from client_Get_gets [OF g] obtain evs1 where
      t1: "trace st1 = trace st @ evs1" and f1: "filter is_get evs1 = [Get (WeightLogReq (e + 30 * 24 * Hour))]"
      by auto
    have one: "[Get (WeightLogReq (e + 30 * 24 * Hour))] =
        map (\<lambda>i. Get (WeightLogReq (e + 30 * 24 * Hour * int i))) [1..<Suc 1]"
      by simp
    show ?thesis
    proof (cases res)
      case (Inl err)
      with Suc.prems True g have "st' = st1" "out \<noteq> Returned" by auto
      with t1 f1 one show ?thesis by metis
    next
      case (Inr response)
      show ?thesis
      proof (cases "Decode_weights env (Body response) ws")
        case (Inl err)
        with Suc.prems True g Inr have "st' = emit (DecodeError err) st1" "out \<noteq> Returned" by auto
        with t1 f1 have "trace st' = trace st @ (evs1 @ [DecodeError err])"
          "filter is_get (evs1 @ [DecodeError err]) = [Get (WeightLogReq (e + 30 * 24 * Hour))]"
          by auto
        with one \<open>out \<noteq> Returned\<close> show ?thesis by metis
      next
        case (Inr ws')
        obtain p st2 where pw: "print_weights ws' st1 = (p, st2)" by force
        from print_weights_ext [OF pw] obtain evs2 where
          t2: "trace st2 = trace st1 @ evs2" and f2: "filter is_get evs2 = []"
          by (auto simp: extends_def filter_get_quiet)
        show ?thesis
        proof (cases p)
          case (Some out2)
          with Suc.prems True g \<open>res = Inr response\<close> Inr pw
          have "st' = st2" "out = out2" by auto
          moreover have "out2 = Panic"
            using pw Some
            by (induction ws' arbitrary: st1) (auto simp: print_entry_def split: option.splits prod.splits)
          ultimately have "trace st' = trace st @ (evs1 @ evs2)"
            "filter is_get (evs1 @ evs2) = [Get (WeightLogReq (e + 30 * 24 * Hour))]" "out \<noteq> Returned"
            using t1 t2 f1 f2 by auto
          with one show ?thesis by metis
        next
          case None
          with Suc.prems True g \<open>res = Inr response\<close> Inr pw
          have "window_loop fuel env c st2 (e + 30 * 24 * Hour) ws' = (out, st')" by auto
          from Suc.IH [OF this] obtain evs3 k where
            t3: "trace st' = trace st2 @ evs3"
            and f3: "filter is_get evs3 = map (\<lambda>i. Get (WeightLogReq (e + 30 * 24 * Hour + 30 * 24 * Hour * int i))) [1..<Suc k]"
            and x3: "out = Returned \<longrightarrow> (\<exists>n. time_Now env n \<le> e + 30 * 24 * Hour + 30 * 24 * Hour * int k)"
            by blast
          have "trace st' = trace st @ (evs1 @ evs2 @ evs3)" using t1 t2 t3 by simp
          moreover have "filter is_get (evs1 @ evs2 @ evs3) =
             map (\<lambda>i. Get (WeightLogReq (e + 30 * 24 * Hour * int i))) [1..<Suc (Suc k)]"
            unfolding upt_shift using f1 f2 f3 by (simp add: algebra_simps)
          moreover have "out = Returned \<longrightarrow> (\<exists>n. time_Now env n \<le> e + 30 * 24 * Hour * int (Suc k))"
            using x3 by (simp add: algebra_simps)
          ultimately show ?thesis by blast
        qed
      qed
    qed
  qed
qed




lemma P_pos: "0 < 30 * 24 * Hour"
  by (simp add: Hour_def)

lemma iterations_step:
  assumes "e < T"
  shows "iterations T e = Suc (iterations T (e + 30 * 24 * Hour))"
proof -
  define P where "P = 30 * 24 * Hour"
  have P: "0 < P" by (simp add: P_def Hour_def)
  have "(T - e + P - 1) div P = (T - e - 1) div P + 1"
    using P div_add_self2 [of P "T - e - 1"] by (simp add: algebra_simps)
  moreover have "0 \<le> (T - e - 1) div P"
    using P assms by (simp add: pos_imp_zdiv_nonneg_iff)
  ultimately show ?thesis
    unfolding iterations_def P_def [symmetric] by (simp add: algebra_simps nat_add_distrib)
qed

lemma window_loop_bounded:
  assumes clock: "\<forall>n. time_Now env n \<le> T"
  shows "window_loop fuel env c st e ws = (out, st') \<Longrightarrow>
     length (filter is_get (trace st')) \<le> length (filter is_get (trace st)) + iterations T e \<and>
     (iterations T e < fuel \<longrightarrow> out \<noteq> OutOfFuel)"
proof (induction fuel arbitrary: st e ws)
  case 0
  then show ?case by simp
next
  case (Suc fuel)
  show ?case
  proof (cases "e < time_Now env (tick st)")
    case False
    with Suc.prems show ?thesis by auto
  next
    case True
    with clock have "e < T" by (meson less_le_trans)
    note it = iterations_step [OF this]
    obtain res st1 where g: "client_Get env c (step st) (WeightLogReq (e + 30 * 24 * Hour)) = (res, st1)"
      by force
    from client_Get_gets [OF g]
    have l1: "length (filter is_get (trace st1)) = Suc (length (filter is_get (trace st)))"
      by auto
    show ?thesis
    proof (cases res)
      case (Inl err)
      with Suc.prems True g have "st' = st1" "out \<noteq> OutOfFuel" by auto
      with l1 it show ?thesis by simp
    next
      case (Inr response)
      show ?thesis
      proof (cases "Decode_weights env (Body response) ws")
        case (Inl err)
        with Suc.prems True g Inr have "st' = emit (DecodeError err) st1" "out \<noteq> OutOfFuel" by auto
        with l1 it show ?thesis by simp
      next
        case (Inr ws')
        obtain p st2 where pw: "print_weights ws' st1 = (p, st2)" by force
        from print_weights_ext [OF pw]
        have l2: "length (filter is_get (trace st2)) = length (filter is_get (trace st1))"
          by (auto simp: extends_def filter_get_quiet)
        show ?thesis
        proof (cases p)
          case (Some out2)
          with Suc.prems True g \<open>res = Inr response\<close> Inr pw
          have "st' = st2" "out = out2" by auto
          moreover have "out2 = Panic"
            using pw Some
            by (induction ws' arbitrary: st1) (auto simp: print_entry_def split: option.splits prod.splits)
          ultimately show ?thesis using l1 l2 it by simp
        next
          case None
          with Suc.prems True g \<open>res = Inr response\<close> Inr pw
          have "window_loop fuel env c st2 (e + 30 * 24 * Hour) ws' = (out, st')" by auto
          from Suc.IH [OF this] l1 l2 it show ?thesis by simp
        qed
      qed
    qed
  qed
qed

text \<open>
  Claim C5. Whatever the end date the loop starts from, and whatever time \<open>now\<close> the clock
  does not pass during the run, the date-window loop ends: with more fuel than
  \<open>iterations now endDate\<close> (the number of 30-day steps from \<open>endDate\<close> to \<open>now\<close>) the loop
  does not run out of fuel, and it issues at most that many HTTP GET requests.
\<close>

theorem window_loop_terminates:
  assumes "\<forall>n. time_Now env n \<le> now"
    and "iterations now endDate < fuel"
  shows "fst (window_loop fuel env c st endDate weights) \<noteq> OutOfFuel \<and>
         length (filter is_get (trace (snd (window_loop fuel env c st endDate weights))))
           \<le> length (filter is_get (trace st)) + iterations now endDate"
  using window_loop_bounded [OF assms(1), where fuel = fuel and c = c and st = st and e = endDate
      and ws = weights and out = "fst (window_loop fuel env c st endDate weights)"
      and st' = "snd (window_loop fuel env c st endDate weights)"]
    assms(2)
  by simp


theorem window_loop_terminates_witness:
  "(\<forall>n. time_Now env0 n \<le> 20 * 24 * Hour + 12 * Hour) \<and>
   iterations (20 * 24 * Hour + 12 * Hour) (9 * 24 * Hour) < 2 \<and>
   fst (window_loop 2 env0 (CacherClient tok0) st0 (9 * 24 * Hour) []) \<noteq> OutOfFuel \<and>
   length (filter is_get (trace (snd (window_loop 2 env0 (CacherClient tok0) st0 (9 * 24 * Hour) []))))
     \<le> length (filter is_get (trace st0)) + iterations (20 * 24 * Hour + 12 * Hour) (9 * 24 * Hour)"
proof -
  have h1: "\<forall>n. time_Now env0 n \<le> 20 * 24 * Hour + 12 * Hour"
    by (simp add: env0_def)
  have h2: "iterations (20 * 24 * Hour + 12 * Hour) (9 * 24 * Hour) < 2"
    by (simp add: iterations_def Hour_def)
  show ?thesis
    using h1 h2 window_loop_terminates [OF h1 h2, where c = "CacherClient tok0" and st = st0 and weights = "[]"] by simp
qed




lemma end_dates_append: "end_dates (xs @ ys) = end_dates xs @ end_dates ys"
  by (induction xs rule: end_dates.induct) auto

lemma end_dates_filter: "end_dates (filter is_get evs) = end_dates evs"
  by (induction evs rule: end_dates.induct) auto

lemma end_dates_map: "end_dates (map (\<lambda>i. Get (WeightLogReq (f i))) xs) = map f xs"
  by (induction xs) auto


lemma day_of_add: "day_of (e + 30 * 24 * Hour * i) = day_of e + 30 * i"
proof -
  have nz: "24 * Hour \<noteq> 0" by (simp add: Hour_def)
  have eq: "e + 30 * 24 * Hour * i = e + (30 * i) * (24 * Hour)" by (simp add: algebra_simps)
  have "(e + (30 * i) * (24 * Hour)) div (24 * Hour) = 30 * i + e div (24 * Hour)"
    by (rule div_mult_self1 [OF nz])
  then show ?thesis unfolding day_of_def eq by linarith
qed

lemma day_of_sub: "day_of (e - 24 * Hour) = day_of e - 1"
proof -
  have nz: "24 * Hour \<noteq> 0" by (simp add: Hour_def)
  have eq: "e - 24 * Hour = e + (- 1) * (24 * Hour)" by (simp add: algebra_simps)
  have "(e + (- 1) * (24 * Hour)) div (24 * Hour) = - 1 + e div (24 * Hour)"
    by (rule div_mult_self1 [OF nz])
  then show ?thesis unfolding day_of_def eq by linarith
qed

lemma day_of_mono: "a \<le> b \<Longrightarrow> day_of a \<le> day_of b"
  unfolding day_of_def by (rule zdiv_mono1) (simp_all add: Hour_def)

lemma div30:
  fixes x :: int
  assumes "0 \<le> x"
  shows "30 * (x div 30) \<le> x" "x \<le> 29 + 30 * (x div 30)" "0 \<le> x div 30"
  using assms by presburger+

lemma div30_less:
  fixes x k :: int
  assumes "x \<le> 30 * k - 1"
  shows "x div 30 < k"
  using assms by presburger


text \<open>
  Claim C1, as amended. When the time-series reply has an entry, the date of its first entry
  parses, and the run returns normally, the loop requests the weight log with the end dates
  \<open>first - 24h + 30d\<close>, \<open>first - 24h + 2 * 30d\<close>, ... in this order, and every calendar day from
  the day of the first entry up to the day of \<open>now\<close> (an instant the clock has reached when
  the run starts) lies in the 30-day window of one of these requests.
\<close>

theorem window_requests_cover:
  assumes "Decode_timeseries env (Body response) = Inr Entries"
    and "Entries \<noteq> []"
    and "time_Parse env (DateTime (Entries ! 0)) = Inr first"
    and "main_rest env c fuel response st = (Returned, st')"
    and "\<forall>n. now \<le> time_Now env n"
  shows "\<exists>k. end_dates (trace st') =
               end_dates (trace st) @ map (\<lambda>i. first - 24 * Hour + 30 * 24 * Hour * int i) [1..<Suc k]
           \<and> (\<forall>d. day_of first \<le> d \<and> d \<le> day_of now \<longrightarrow> covered (trace st') d)"
proof -
  from assms(1-4) have "window_loop fuel env c st (first - 24 * Hour) [] = (Returned, st')"
    by (simp add: main_rest_def)
  from window_loop_gets [OF this] obtain evs k n where
    t: "trace st' = trace st @ evs"
    and f: "filter is_get evs = map (\<lambda>i. Get (WeightLogReq (first - 24 * Hour + 30 * 24 * Hour * int i))) [1..<Suc k]"
    and x: "time_Now env n \<le> first - 24 * Hour + 30 * 24 * Hour * int k"
    by blast
  have "end_dates evs = map (\<lambda>i. first - 24 * Hour + 30 * 24 * Hour * int i) [1..<Suc k]"
    using end_dates_filter [of evs] unfolding f end_dates_map by simp
  then have ed: "end_dates (trace st') =
      end_dates (trace st) @ map (\<lambda>i. first - 24 * Hour + 30 * 24 * Hour * int i) [1..<Suc k]"
    unfolding t end_dates_append by simp
  have "covered (trace st') d" if d: "day_of first \<le> d" "d \<le> day_of now" for d
  proof -
    have "now \<le> first - 24 * Hour + 30 * 24 * Hour * int k"
      using assms(5) x by (meson order_trans)
    from day_of_mono [OF this] have up: "day_of now \<le> day_of first - 1 + 30 * int k"
      unfolding day_of_add day_of_sub .
    define x where "x = d - day_of first"
    have x0: "0 \<le> x" using d by (simp add: x_def)
    have "x \<le> 30 * int k - 1" using d up by (simp add: x_def)
    from div30_less [OF this] have xk: "x div 30 < int k" .
    define i where "i = nat (x div 30) + 1"
    have i1: "1 \<le> i" by (simp add: i_def)
    have i2: "i < Suc k" using xk div30(3) [OF x0] by (simp add: i_def)
    have ii: "int i = x div 30 + 1" using div30(3) [OF x0] by (simp add: i_def)
    let ?e = "first - 24 * Hour + 30 * 24 * Hour * int i"
    have "i \<in> set [1..<Suc k]" using i1 i2 by (simp del: upt_Suc)
    then have "?e \<in> set (end_dates (trace st'))"
      unfolding ed by (auto simp del: upt_Suc)
    moreover have "in_window ?e d"
      unfolding in_window_def day_of_add day_of_sub ii
      using div30(1,2) [OF x0] by (simp add: x_def)
    ultimately show ?thesis unfolding covered_def by blast
  qed
  with ed show ?thesis by blast
qed



text \<open>
  Claim C1 as stated fails: with a first entry on day 10 and the clock on day 20, the only
  request has the end date of day 39, whose 30-day window is the days 10 to 39; day 9, the
  day before the first entry, is in no requested window.
\<close>

theorem day_before_first_entry_not_covered:
  "Decode_timeseries env0 (Body resp_ts) = Inr [\<lparr>DateTime = ''1970-01-11'', Value = ''65.9''\<rparr>] \<and>
   time_Parse env0 ''1970-01-11'' = Inr (10 * 24 * Hour) \<and>
   time_Now env0 0 = 20 * 24 * Hour + 12 * Hour \<and>
   fst (main_rest env0 (CacherClient tok0) 2 resp_ts st0) = Returned \<and>
   end_dates (trace (snd (main_rest env0 (CacherClient tok0) 2 resp_ts st0))) = [39 * 24 * Hour] \<and>
   day_of (10 * 24 * Hour) - 1 = 9 \<and> 9 \<le> day_of (20 * 24 * Hour + 12 * Hour) \<and>
   \<not> covered (trace (snd (main_rest env0 (CacherClient tok0) 2 resp_ts st0))) 9"
  by code_simp

theorem window_requests_cover_witness:
  "Decode_timeseries env0 (Body resp_ts) = Inr [\<lparr>DateTime = ''1970-01-11'', Value = ''65.9''\<rparr>] \<and>
   [\<lparr>DateTime = ''1970-01-11'', Value = ''65.9''\<rparr>] \<noteq> [] \<and>
   time_Parse env0 (DateTime ([\<lparr>DateTime = ''1970-01-11'', Value = ''65.9''\<rparr>] ! 0)) = Inr (10 * 24 * Hour) \<and>
   fst (main_rest env0 (CacherClient tok0) 2 resp_ts st0) = Returned \<and>
   (\<forall>n. 20 * 24 * Hour + 12 * Hour \<le> time_Now env0 n) \<and>
   (\<exists>k. end_dates (trace (snd (main_rest env0 (CacherClient tok0) 2 resp_ts st0))) =
          end_dates (trace st0) @ map (\<lambda>i. 10 * 24 * Hour - 24 * Hour + 30 * 24 * Hour * int i) [1..<Suc k]
      \<and> (\<forall>d. day_of (10 * 24 * Hour) \<le> d \<and> d \<le> day_of (20 * 24 * Hour + 12 * Hour) \<longrightarrow>
             covered (trace (snd (main_rest env0 (CacherClient tok0) 2 resp_ts st0))) d))"
proof -
  have h1: "Decode_timeseries env0 (Body resp_ts) = Inr [\<lparr>DateTime = ''1970-01-11'', Value = ''65.9''\<rparr>]"
    by code_simp
  have h2: "[\<lparr>DateTime = ''1970-01-11'', Value = ''65.9''\<rparr>] \<noteq> []" by simp
  have h3: "time_Parse env0 (DateTime ([\<lparr>DateTime = ''1970-01-11'', Value = ''65.9''\<rparr>] ! 0)) = Inr (10 * 24 * Hour)"
    by code_simp
  have r: "fst (main_rest env0 (CacherClient tok0) 2 resp_ts st0) = Returned" by code_simp
  then have h4: "main_rest env0 (CacherClient tok0) 2 resp_ts st0 =
      (Returned, snd (main_rest env0 (CacherClient tok0) 2 resp_ts st0))"
    by (metis prod.collapse)
  have h5: "\<forall>n. 20 * 24 * Hour + 12 * Hour \<le> time_Now env0 n" by (simp add: env0_def)
  from window_requests_cover [OF h1 h2 h3 h4 h5] h1 h2 h3 r h5 show ?thesis by blast
qed




lemma digit_in_digits: "digit d \<in> set ''0123456789''"
  unfolding digit_def by (rule nth_mem) simp

lemma decimal_digits: "set (decimal n) \<subseteq> set ''0123456789''"
proof (induction n rule: decimal.induct)
  case (1 n)
  show ?case
  proof (cases "n < 10")
    case True
    then show ?thesis using digit_in_digits [of n] by (subst decimal.simps) simp
  next
    case False
    then show ?thesis using 1 digit_in_digits [of "n mod 10"] by (subst decimal.simps) simp
  qed
qed

lemma format_1f_shape:
  "\<exists>s d. format_1f x = s @ ''.'' @ [d] \<and> d \<in> set ''0123456789'' \<and> CHR ''.'' \<notin> set s"
proof -
  define n where "n = nat (round_half_even (\<bar>magnitude x\<bar> * 10))"
  define s where "s = (if negative x then ''-'' else []) @ decimal (n div 10)"
  have "format_1f x = s @ ''.'' @ [digit (n mod 10)]"
    by (simp add: format_1f_def n_def s_def Let_def)
  moreover have "CHR ''.'' \<notin> set s"
    using decimal_digits [of "n div 10"] by (auto simp: s_def)
  ultimately show ?thesis using digit_in_digits by blast
qed

lemma print_weights_lines:
  "\<forall>entry \<in> set ws. 5 \<le> length (Time entry) \<Longrightarrow>
   print_weights ws st =
     (None, st\<lparr>trace := trace st @ map (\<lambda>entry. Stdout (Date entry @ '' '' @ take 5 (Time entry)
              @ '' '' @ format_1f (Weight entry) @ ''\<newline>'')) ws\<rparr>)"
proof (induction ws arbitrary: st)
  case Nil
  show ?case by simp
next
  case (Cons w ws)
  then show ?case by (simp add: print_entry_ok)
qed

text \<open>
  Claim C10. The slice \<open>entry.Time[0:5]\<close> is in bounds, and printing the entry does not
  panic, exactly when the \<open>Time\<close> field has at least five bytes; it panics exactly when the
  field is shorter.
\<close>

theorem time_slice_in_bounds_iff:
  "(slice_0_5 (Time entry) = Some (take 5 (Time entry))) = (5 \<le> length (Time entry)) \<and>
   (fst (print_entry entry st) = None) = (5 \<le> length (Time entry)) \<and>
   (fst (print_entry entry st) = Some Panic) = (length (Time entry) < 5)"
  by (auto simp: print_entry_def slice_0_5_def)

text \<open>
  Claim C2, as amended. When a body-weight log reply decodes to entries whose \<open>Time\<close> fields
  all have at least five bytes, that pass of the loop writes to standard output, for each
  entry and in the order of the reply, one line made of the date, a space, the first five
  bytes of the time, a space and the weight, and goes on with the next window; the weight
  is printed with exactly one digit after the decimal point.
\<close>

theorem weight_lines_printed:
  assumes "endDate < time_Now env (tick st)"
    and "client_Get env c (step st) (WeightLogReq (endDate + 30 * 24 * Hour)) = (Inr response, st1)"
    and "Decode_weights env (Body response) weights = Inr weights'"
    and "\<forall>entry \<in> set weights'. 5 \<le> length (Time entry)"
  shows "window_loop (Suc fuel) env c st endDate weights =
           window_loop fuel env c
             (st1\<lparr>trace := trace st1 @
                map (\<lambda>entry. Stdout (Date entry @ '' '' @ take 5 (Time entry) @ '' ''
                       @ format_1f (Weight entry) @ ''\<newline>'')) weights'\<rparr>)
             (endDate + 30 * 24 * Hour) weights' \<and>
         (\<forall>entry \<in> set weights'. \<exists>s d. format_1f (Weight entry) = s @ ''.'' @ [d] \<and>
             d \<in> set ''0123456789'' \<and> CHR ''.'' \<notin> set s)"
  using assms format_1f_shape by (simp add: print_weights_lines)


text \<open>
  Claim C2 as stated fails: a reply that decodes to three entries, the second with the
  four-byte time \<open>9:05\<close>, gets the line of the first entry only; the program panics at the
  second entry, and neither it nor the third is printed.
\<close>

theorem short_time_entry_not_printed:
  "Decode_weights env_short (Body resp_w) [] = Inr [w1, w_short, w2] \<and>
   length (Time w_short) = 4 \<and>
   main_rest env_short (CacherClient tok0) 2 resp_ts st0 =
     (Panic, \<lparr>tick = 4, cache_file = Content ''a/r'', mux_registered = False, reuse_t = None,
        trace = [Get (WeightLogReq (39 * 24 * Hour)), Stdout ''2013-07-30 18:00 65.9\<newline>'']\<rparr>)"
  by code_simp

theorem weight_lines_printed_witness:
  "9 * 24 * Hour < time_Now env0 (tick st0) \<and>
   fst (client_Get env0 (CacherClient tok0) (step st0) (WeightLogReq (9 * 24 * Hour + 30 * 24 * Hour)))
     = Inr resp_w \<and>
   Decode_weights env0 (Body resp_w) [] = Inr [w1, w2] \<and>
   5 \<le> length (Time w1) \<and> 5 \<le> length (Time w2) \<and>
   window_loop (Suc 1) env0 (CacherClient tok0) st0 (9 * 24 * Hour) [] =
     window_loop 1 env0 (CacherClient tok0)
       ((snd (client_Get env0 (CacherClient tok0) (step st0)
                (WeightLogReq (9 * 24 * Hour + 30 * 24 * Hour))))
          \<lparr>trace := trace (snd (client_Get env0 (CacherClient tok0) (step st0)
                (WeightLogReq (9 * 24 * Hour + 30 * 24 * Hour)))) @
             map (\<lambda>entry. Stdout (Date entry @ '' '' @ take 5 (Time entry) @ '' ''
                    @ format_1f (Weight entry) @ ''\<newline>'')) [w1, w2]\<rparr>)
       (9 * 24 * Hour + 30 * 24 * Hour) [w1, w2]"
proof -
  have h1: "9 * 24 * Hour < time_Now env0 (tick st0)" by code_simp
  have g: "fst (client_Get env0 (CacherClient tok0) (step st0)
      (WeightLogReq (9 * 24 * Hour + 30 * 24 * Hour))) = Inr resp_w"
    by code_simp
  then have h2: "client_Get env0 (CacherClient tok0) (step st0)
      (WeightLogReq (9 * 24 * Hour + 30 * 24 * Hour)) =
      (Inr resp_w, snd (client_Get env0 (CacherClient tok0) (step st0)
      (WeightLogReq (9 * 24 * Hour + 30 * 24 * Hour))))"
    by (metis prod.collapse)
  have h3: "Decode_weights env0 (Body resp_w) [] = Inr [w1, w2]" by code_simp
  have h4: "\<forall>entry \<in> set [w1, w2]. 5 \<le> length (Time entry)" by (simp add: w1_def w2_def)
  from weight_lines_printed [OF h1 h2 h3 h4, of 1] h1 g h3 h4 show ?thesis by simp
qed

text \<open>
  Claim C9. When the time-series reply decodes to zero entries, the rest of \<open>main\<close> only
  logs that the API returned no values and exits with status 0: nothing goes to standard
  output and no body-weight log request is issued. So does \<open>main\<close> from the loop of the
  time-series request on, when that loop ends with such a reply.
\<close>

theorem no_entries_exit_0:
  assumes "Decode_timeseries env (Body response) = Inr []"
  shows "main_rest env c fuel response st =
           (Exit 0, st\<lparr>trace := trace st @ [Log ''The fitbit API returned no values.'']\<rparr>) \<and>
         (tries_loop env c 0 None st_before = (Ok (Some response), st) \<longrightarrow>
            main_body env c fuel st_before =
              (Exit 0, st\<lparr>trace := trace st @ [Log ''The fitbit API returned no values.'']\<rparr>))"
  using assms by (simp add: main_rest_def main_body_def emit_def)

theorem no_entries_exit_0_witness:
  "Decode_timeseries env0 (Body resp_w) = Inr [] \<and>
   main_rest env0 (CacherClient tok0) 2 resp_w st0 =
     (Exit 0, st0\<lparr>trace := trace st0 @ [Log ''The fitbit API returned no values.'']\<rparr>)"
proof -
  have h: "Decode_timeseries env0 (Body resp_w) = Inr []" by code_simp
  from no_entries_exit_0 [OF h] h show ?thesis by blast
qed

text \<open>
  Claim C8. When \<open>cacherTransport.RoundTrip\<close> returns a response and the token source,
  asked again after the round trip, yields a token, the cache file is written (with the new
  token, once) exactly when no cached token was read or the cached token differs from the
  new one in its access token or its refresh token; otherwise the file and the history are
  as before.
\<close>

theorem cache_written_iff_token_changed:
  assumes "cacher_RoundTrip env tok st url = (Inr resp, st')"
    and "Source_Token env tok (tick st + 2) = Inr newTok"
  shows "((\<exists>bytes. trace st' = trace st @ [WriteFile bytes] \<and> cache_file st' = Content bytes) =
          (tokenFromFile env st = Inl ErrNotExist \<or>
           (\<exists>ct. tokenFromFile env st = Inr ct \<and>
                 (AccessToken ct \<noteq> AccessToken newTok \<or> RefreshToken ct \<noteq> RefreshToken newTok)))) \<and>
         ((\<exists>ct. tokenFromFile env st = Inr ct \<and> AccessToken ct = AccessToken newTok \<and>
                RefreshToken ct = RefreshToken newTok) \<longrightarrow>
          cache_file st' = cache_file st \<and> trace st' = trace st)"
proof -
  have rc: "RoundTrip_cached env tok ct st url = (Inr resp, st') \<Longrightarrow>
      (\<exists>bytes. trace st' = trace st @ [WriteFile bytes] \<and> cache_file st' = Content bytes) =
        (case ct of None \<Rightarrow> True
         | Some c \<Rightarrow> AccessToken c \<noteq> AccessToken newTok \<or> RefreshToken c \<noteq> RefreshToken newTok) \<and>
      (\<not> (case ct of None \<Rightarrow> True
         | Some c \<Rightarrow> AccessToken c \<noteq> AccessToken newTok \<or> RefreshToken c \<noteq> RefreshToken newTok)
        \<longrightarrow> cache_file st' = cache_file st \<and> trace st' = trace st)" for ct
    using assms(2) unfolding RoundTrip_cached_def Source_Token_call_def ioutil_WriteFile_def
    by (auto split: sum.splits option.splits if_splits)
  show ?thesis
  proof (cases "tokenFromFile env st")
    case (Inl err)
    with assms(1) have e: "err = ErrNotExist" and r: "RoundTrip_cached env tok None st url = (Inr resp, st')"
      by (auto simp: cacher_RoundTrip_def split: if_splits)
    from rc [OF r] Inl e show ?thesis by simp
  next
    case (Inr ct)
    with assms(1) have r: "RoundTrip_cached env tok (Some ct) st url = (Inr resp, st')"
      by (simp add: cacher_RoundTrip_def)
    from rc [OF r] Inr show ?thesis by auto
  qed
qed

theorem cache_written_iff_token_changed_witness:
  "cacher_RoundTrip env0 tok0 st_absent ''u'' =
     (Inr resp_w, \<lparr>tick = 4, cache_file = Content ''a/r'', mux_registered = False,
        reuse_t = None, trace = [WriteFile ''a/r'']\<rparr>) \<and>
   Source_Token env0 tok0 (tick st_absent + 2) = Inr tok0 \<and>
   tokenFromFile env0 st_absent = Inl ErrNotExist \<and>
   (\<exists>bytes. trace \<lparr>tick = 4, cache_file = Content ''a/r'', mux_registered = False,
        reuse_t = None, trace = [WriteFile ''a/r'']\<rparr> = trace st_absent @ [WriteFile bytes] \<and>
      cache_file \<lparr>tick = 4, cache_file = Content ''a/r'', mux_registered = False,
        reuse_t = None, trace = [WriteFile ''a/r'']\<rparr> = Content bytes)"
proof -
  have h1: "cacher_RoundTrip env0 tok0 st_absent ''u'' =
     (Inr resp_w, \<lparr>tick = 4, cache_file = Content ''a/r'', mux_registered = False,
        reuse_t = None, trace = [WriteFile ''a/r'']\<rparr>)"
    by code_simp
  have h2: "Source_Token env0 tok0 (tick st_absent + 2) = Inr tok0" by code_simp
  have h3: "tokenFromFile env0 st_absent = Inl ErrNotExist" by code_simp
  from cache_written_iff_token_changed [OF h1 h2] h1 h2 h3 show ?thesis by blast
qed


lemma quiet_facts:
  assumes "\<forall>e \<in> set evs. is_quiet e"
  shows "Authorize \<notin> set evs" "filter is_failure evs = []" "filter is_get evs = []"
    "Get r \<notin> set evs"
proof -
  have "\<not> is_failure e \<and> \<not> is_get e \<and> e \<noteq> Authorize \<and> e \<noteq> Get r" if "is_quiet e" for e
    using that by (cases e) auto
  with assms show "Authorize \<notin> set evs" "filter is_failure evs = []" "filter is_get evs = []"
    "Get r \<notin> set evs"
    by (auto simp: filter_empty_conv)
qed

lemma client_Get_plain:
  assumes "\<forall>src. c \<noteq> FileSourceClient src" and "client_Get env c st r = (res, st')"
  shows "\<exists>evs. trace st' = trace st @ Get r # evs \<and> Authorize \<notin> set evs \<and>
           filter is_get evs = [] \<and>
           filter is_failure evs = (case res of Inl e \<Rightarrow> [GetError e] | Inr _ \<Rightarrow> [])"
proof -
  from client_Get_trace [OF assms(2)] assms(1) obtain mid where
    t: "trace st' = trace st @ Get r # mid @ (case res of Inl e \<Rightarrow> [GetError e] | Inr _ \<Rightarrow> [])"
    and q: "\<forall>e \<in> set mid. is_quiet e" by blast
  from t quiet_facts(1-3) [OF q] show ?thesis
    by (cases res) auto
qed

lemma authorize_trace:
  assumes "authorize env st = (r, st')"
  shows "\<exists>evs. trace st' = trace st @ Authorize # evs \<and> Authorize \<notin> set evs \<and>
           filter is_get evs = [] \<and>
           filter is_failure evs = (case r of Ok (Inl e) \<Rightarrow> [AuthorizeError e] | _ \<Rightarrow> [])"
  using assms by (auto simp: authorize_def Let_def split: if_splits sum.splits)

lemma print_weights_Panic: "print_weights ws st = (Some out, st') \<Longrightarrow> out = Panic"
  by (induction ws arbitrary: st) (auto simp: print_entry_def split: option.splits prod.splits)

lemma window_loop_plain:
  assumes c: "\<forall>src. c \<noteq> FileSourceClient src"
  shows "window_loop fuel env c st e ws = (out, st') \<Longrightarrow>
     \<exists>evs. trace st' = trace st @ evs \<and> Authorize \<notin> set evs \<and>
       (filter is_failure evs = [] \<or> (\<exists>m. out = Fatal m))"
proof (induction fuel arbitrary: st e ws)
  case 0
  then show ?case by simp
next
  case (Suc fuel)
  show ?case
  proof (cases "e < time_Now env (tick st)")
    case False
    with Suc.prems show ?thesis by auto
  next
    case True
    obtain res st1 where g: "client_Get env c (step st) (WeightLogReq (e + 30 * 24 * Hour)) = (res, st1)"
      by force
    from client_Get_plain [OF c g] obtain evs1 where
      t1: "trace st1 = trace st @ Get (WeightLogReq (e + 30 * 24 * Hour)) # evs1"
      and a1: "Authorize \<notin> set evs1"
      and f1: "filter is_failure evs1 = (case res of Inl e \<Rightarrow> [GetError e] | Inr _ \<Rightarrow> [])"
      by auto
    show ?thesis
    proof (cases res)
      case (Inl err)
      with Suc.prems True g have "st' = st1" "out = Fatal (FatalErr err)" by auto
      with t1 a1 show ?thesis by auto
    next
      case (Inr response)
      note res = this
      show ?thesis
      proof (cases "Decode_weights env (Body response) ws")
        case (Inl err)
        with Suc.prems True g res have "st' = emit (DecodeError err) st1" "out = Fatal (FatalErr err)"
          by auto
        with t1 a1 show ?thesis by auto
      next
        case (Inr ws')
        obtain p st2 where pw: "print_weights ws' st1 = (p, st2)" by force
        from print_weights_ext [OF pw] obtain evs2 where
          t2: "trace st2 = trace st1 @ evs2" and q2: "\<forall>e \<in> set evs2. is_quiet e"
          by (auto simp: extends_def)
        note k2 = quiet_facts(1,2) [OF q2]
        show ?thesis
        proof (cases p)
          case (Some out2)
          with Suc.prems True g res Inr pw have "st' = st2" by auto
          with t1 t2 a1 f1 res k2 show ?thesis by auto
        next
          case None
          with Suc.prems True g res Inr pw
          have "window_loop fuel env c st2 (e + 30 * 24 * Hour) ws' = (out, st')" by auto
          from Suc.IH [OF this] obtain evs3 where
            t3: "trace st' = trace st2 @ evs3" and a3: "Authorize \<notin> set evs3"
            and f3: "filter is_failure evs3 = [] \<or> (\<exists>m. out = Fatal m)"
            by blast
          have "trace st' = trace st @ (Get (WeightLogReq (e + 30 * 24 * Hour)) # evs1 @ evs2 @ evs3)"
            using t1 t2 t3 by simp
          moreover have "Authorize \<notin> set (Get (WeightLogReq (e + 30 * 24 * Hour)) # evs1 @ evs2 @ evs3)"
            using a1 k2 a3 by simp
          moreover have "filter is_failure (Get (WeightLogReq (e + 30 * 24 * Hour)) # evs1 @ evs2 @ evs3) = []
              \<or> (\<exists>m. out = Fatal m)"
            using f1 res k2 f3 by auto
          ultimately show ?thesis by blast
        qed
      qed
    qed
  qed
qed

lemma window_loop_no_timeseries:
  assumes "window_loop fuel env c st e ws = (out, st')"
  shows "\<exists>evs. trace st' = trace st @ evs \<and> Get TimeSeriesReq \<notin> set evs"
proof -
  from window_loop_gets [OF assms] obtain evs k where
    t: "trace st' = trace st @ evs"
    and f: "filter is_get evs = map (\<lambda>i. Get (WeightLogReq (e + 30 * 24 * Hour * int i))) [1..<Suc k]"
    by blast
  have "Get TimeSeriesReq \<notin> set (filter is_get evs)" unfolding f by auto
  then have "Get TimeSeriesReq \<notin> set evs" by simp
  with t show ?thesis by blast
qed

lemma main_rest_trace:
  assumes "main_rest env c fuel response st = (out, st')"
  shows "\<exists>evs. trace st' = trace st @ evs \<and> Get TimeSeriesReq \<notin> set evs \<and>
     ((\<forall>src. c \<noteq> FileSourceClient src) \<longrightarrow>
        Authorize \<notin> set evs \<and> (filter is_failure evs = [] \<or> (\<exists>m. out = Fatal m)))"
proof (cases "Decode_timeseries env (Body response)")
  case (Inl err)
  with assms show ?thesis by (auto simp: main_rest_def)
next
  case (Inr Entries)
  show ?thesis
  proof (cases "Entries = []")
    case True
    with assms Inr show ?thesis by (auto simp: main_rest_def)
  next
    case False
    show ?thesis
    proof (cases "time_Parse env (DateTime (Entries ! 0))")
      case (Inl err)
      with assms Inr False show ?thesis by (auto simp: main_rest_def)
    next
      case (Inr endDate)
      with assms \<open>Decode_timeseries env (Body response) = Inr Entries\<close> False
      have w: "window_loop fuel env c st (endDate + (- 24) * Hour) [] = (out, st')"
        by (simp add: main_rest_def)
      from window_loop_no_timeseries [OF w] obtain evs where
        t: "trace st' = trace st @ evs" and g: "Get TimeSeriesReq \<notin> set evs" by blast
      show ?thesis
      proof (cases "\<forall>src. c \<noteq> FileSourceClient src")
        case True
        from window_loop_plain [OF True w] t g show ?thesis by auto
      next
        case False
        with t g show ?thesis by blast
      qed
    qed
  qed
qed


lemma inner_facts:
  assumes "\<forall>e \<in> set evs. is_inner e"
  shows "count_list evs (Get r) = 0" "GetError x \<notin> set evs"
proof -
  have "e \<noteq> Get r \<and> e \<noteq> GetError x" if "is_inner e" for e
    using that by (cases e) auto
  with assms show "count_list evs (Get r) = 0" "GetError x \<notin> set evs"
    by (auto simp: count_list_0_iff)
qed

lemma client_Get_count:
  assumes "client_Get env c st r = (res, st')"
  shows "\<exists>evs. trace st' = trace st @ Get r # evs \<and> count_list evs (Get r') = 0 \<and>
           (\<forall>e. GetError e \<in> set evs \<longrightarrow> res = Inl e)"
proof -
  from client_Get_trace [OF assms] obtain mid where
    t: "trace st' = trace st @ Get r # mid @ (case res of Inl e \<Rightarrow> [GetError e] | Inr _ \<Rightarrow> [])"
    and q: "\<forall>e \<in> set mid. is_inner e" by blast
  from t inner_facts [OF q] show ?thesis
    by (cases res) auto
qed

lemma tries_loop_unroll:
  "tries_loop env c 0 None st =
     (case client_Get env c st TimeSeriesReq of
        (Inl err, st1) \<Rightarrow> (Abort (Fatal (FatalErr err)), st1)
      | (Inr r1, st1) \<Rightarrow>
          (case client_Get env c st1 TimeSeriesReq of
             (Inl err, st2) \<Rightarrow> (Abort (Fatal (FatalErr err)), st2)
           | (Inr r2, st2) \<Rightarrow> (Ok (Some r2), st2)))"
  by (simp add: tries_loop.simps split: prod.splits sum.splits)

lemma tries_loop_count:
  assumes "tries_loop env c 0 None st = (r, st')"
  shows "\<exists>evs. trace st' = trace st @ evs \<and> count_list evs (Get TimeSeriesReq) \<le> 2 \<and>
           (\<forall>e. GetError e \<in> set evs \<longrightarrow> r = Abort (Fatal (FatalErr e))) \<and>
           (\<forall>x. r = Ok x \<longrightarrow> x \<noteq> None)"
proof -
  obtain res1 st1 where g1: "client_Get env c st TimeSeriesReq = (res1, st1)" by force
  from client_Get_count [OF g1, of TimeSeriesReq] obtain evs1 where
    t1: "trace st1 = trace st @ Get TimeSeriesReq # evs1"
    and c1: "count_list evs1 (Get TimeSeriesReq) = 0"
    and e1: "\<forall>e. GetError e \<in> set evs1 \<longrightarrow> res1 = Inl e" by blast
  show ?thesis
  proof (cases res1)
    case (Inl err)
    with assms g1 have "st' = st1" "r = Abort (Fatal (FatalErr err))"
      by (auto simp: tries_loop_unroll)
    with t1 c1 e1 Inl show ?thesis by auto
  next
    case (Inr r1)
    obtain res2 st2 where g2: "client_Get env c st1 TimeSeriesReq = (res2, st2)" by force
    from client_Get_count [OF g2, of TimeSeriesReq] obtain evs2 where
      t2: "trace st2 = trace st1 @ Get TimeSeriesReq # evs2"
      and c2: "count_list evs2 (Get TimeSeriesReq) = 0"
      and e2: "\<forall>e. GetError e \<in> set evs2 \<longrightarrow> res2 = Inl e" by blast
    have t: "trace st2 = trace st @ (Get TimeSeriesReq # evs1 @ Get TimeSeriesReq # evs2)"
      using t1 t2 by simp
    have cnt: "count_list (Get TimeSeriesReq # evs1 @ Get TimeSeriesReq # evs2) (Get TimeSeriesReq) \<le> 2"
      using c1 c2 by simp
    have n1: "GetError e \<notin> set evs1" for e using e1 Inr by auto
    show ?thesis
    proof (cases res2)
      case (Inl err)
      with assms g1 g2 Inr have "st' = st2" "r = Abort (Fatal (FatalErr err))"
        by (auto simp: tries_loop_unroll)
      with t cnt n1 e2 Inl show ?thesis by auto
    next
      case (Inr r2)
      with assms g1 g2 \<open>res1 = Inr r1\<close> have "st' = st2" "r = Ok (Some r2)"
        by (auto simp: tries_loop_unroll)
      with t cnt n1 e2 Inr show ?thesis by auto
    qed
  qed
qed

lemma tries_loop_plain:
  assumes c: "\<forall>src. c \<noteq> FileSourceClient src" and "tries_loop env c 0 None st = (r, st')"
  shows "\<exists>evs. trace st' = trace st @ evs \<and> Authorize \<notin> set evs \<and>
           (filter is_failure evs = [] \<or> (\<exists>m. r = Abort (Fatal m)))"
proof -
  obtain res1 st1 where g1: "client_Get env c st TimeSeriesReq = (res1, st1)" by force
  from client_Get_plain [OF c g1] obtain evs1 where
    t1: "trace st1 = trace st @ Get TimeSeriesReq # evs1" and a1: "Authorize \<notin> set evs1"
    and f1: "filter is_failure evs1 = (case res1 of Inl e \<Rightarrow> [GetError e] | Inr _ \<Rightarrow> [])"
    by blast
  show ?thesis
  proof (cases res1)
    case (Inl err)
    with assms g1 have "st' = st1" "r = Abort (Fatal (FatalErr err))"
      by (auto simp: tries_loop_unroll)
    with t1 a1 show ?thesis by auto
  next
    case (Inr r1)
    obtain res2 st2 where g2: "client_Get env c st1 TimeSeriesReq = (res2, st2)" by force
    from client_Get_plain [OF c g2] obtain evs2 where
      t2: "trace st2 = trace st1 @ Get TimeSeriesReq # evs2" and a2: "Authorize \<notin> set evs2"
      and f2: "filter is_failure evs2 = (case res2 of Inl e \<Rightarrow> [GetError e] | Inr _ \<Rightarrow> [])"
      by blast
    have t: "trace st2 = trace st @ (Get TimeSeriesReq # evs1 @ Get TimeSeriesReq # evs2)"
      using t1 t2 by simp
    show ?thesis
    proof (cases res2)
      case (Inl err)
      with assms g1 g2 Inr have "st' = st2" "r = Abort (Fatal (FatalErr err))"
        by (auto simp: tries_loop_unroll)
      with t a1 a2 show ?thesis by auto
    next
      case (Inr r2)
      with assms g1 g2 \<open>res1 = Inr r1\<close> have "st' = st2" "r = Ok (Some r2)"
        by (auto simp: tries_loop_unroll)
      with t a1 a2 f1 f2 Inr \<open>res1 = Inr r1\<close> show ?thesis by auto
    qed
  qed
qed

lemma main_body_trace:
  assumes "main_body env c fuel st = (out, st')"
  shows "\<exists>evs. trace st' = trace st @ evs \<and> count_list evs (Get TimeSeriesReq) \<le> 2 \<and>
     ((\<forall>src. c \<noteq> FileSourceClient src) \<longrightarrow>
        Authorize \<notin> set evs \<and> (filter is_failure evs = [] \<or> (\<exists>m. out = Fatal m)))"
proof -
  obtain r st1 where tl: "tries_loop env c 0 None st = (r, st1)" by force
  from tries_loop_count [OF tl] obtain evs1 where
    t1: "trace st1 = trace st @ evs1" and c1: "count_list evs1 (Get TimeSeriesReq) \<le> 2"
    and some: "\<forall>x. r = Ok x \<longrightarrow> x \<noteq> None" by blast
  have p1: "Authorize \<notin> set evs1 \<and> (filter is_failure evs1 = [] \<or> (\<exists>m. r = Abort (Fatal m)))"
    if "\<forall>src. c \<noteq> FileSourceClient src"
    using tries_loop_plain [OF that tl] t1 by auto
  show ?thesis
  proof (cases r)
    case (Abort o1)
    with assms tl have "out = o1" "st' = st1" by (auto simp: main_body_def)
    with t1 c1 p1 Abort show ?thesis by auto
  next
    case (Ok x)
    with some obtain response where x: "x = Some response" by auto
    with assms tl Ok have mr: "main_rest env c fuel response st1 = (out, st')"
      by (simp add: main_body_def)
    from main_rest_trace [OF mr] obtain evs2 where
      t2: "trace st' = trace st1 @ evs2" and g2: "Get TimeSeriesReq \<notin> set evs2"
      and p2: "(\<forall>src. c \<noteq> FileSourceClient src) \<longrightarrow>
        Authorize \<notin> set evs2 \<and> (filter is_failure evs2 = [] \<or> (\<exists>m. out = Fatal m))"
      by blast
    have "trace st' = trace st @ (evs1 @ evs2)" using t1 t2 by simp
    moreover have "count_list (evs1 @ evs2) (Get TimeSeriesReq) \<le> 2"
      using c1 g2 by (simp add: count_list_0_iff)
    moreover have "(\<forall>src. c \<noteq> FileSourceClient src) \<longrightarrow>
        Authorize \<notin> set (evs1 @ evs2) \<and> (filter is_failure (evs1 @ evs2) = [] \<or> (\<exists>m. out = Fatal m))"
      using p1 p2 Ok by auto
    ultimately show ?thesis by blast
  qed
qed


lemma initial_token_trace:
  assumes "initial_token env st = (r, st')"
  shows "\<exists>evs. trace st' = trace st @ evs \<and> filter is_get evs = [] \<and>
           (case r of
              Ok _ \<Rightarrow> filter is_failure evs = []
            | Abort out \<Rightarrow> (\<exists>m. out = Fatal m) \<or> filter is_failure evs = []) \<and>
           (\<forall>t. tokenFromFile env st = Inr t \<longrightarrow> evs = [] \<and> r = Ok t)"
proof (cases "tokenFromFile env st")
  case (Inr token)
  with assms show ?thesis by (auto simp: initial_token_def)
next
  case (Inl err)
  show ?thesis
  proof (cases "err = ErrNotExist")
    case False
    with assms Inl show ?thesis by (auto simp: initial_token_def)
  next
    case True
    obtain a st1 where au: "authorize env st = (a, st1)" by force
    from authorize_trace [OF au] obtain evs where
      t: "trace st1 = trace st @ Authorize # evs" and g: "filter is_get evs = []"
      and f: "filter is_failure evs = (case a of Ok (Inl e) \<Rightarrow> [AuthorizeError e] | _ \<Rightarrow> [])"
      by blast
    from assms Inl True au have "st' = st1"
      by (auto simp: initial_token_def split: res.splits sum.splits)
    moreover from assms Inl True au
    have "case r of Ok _ \<Rightarrow> filter is_failure evs = []
            | Abort out \<Rightarrow> (\<exists>m. out = Fatal m) \<or> filter is_failure evs = []"
      using f by (auto simp: initial_token_def split: res.splits sum.splits)
    ultimately have "trace st' = trace st @ (Authorize # evs) \<and> filter is_get (Authorize # evs) = [] \<and>
           (case r of
              Ok _ \<Rightarrow> filter is_failure (Authorize # evs) = []
            | Abort out \<Rightarrow> (\<exists>m. out = Fatal m) \<or> filter is_failure (Authorize # evs) = []) \<and>
           (\<forall>t. tokenFromFile env st = Inr t \<longrightarrow> Authorize # evs = [] \<and> r = Ok t)"
      using t g Inl by (cases r) auto
    then show ?thesis by blast
  qed
qed

lemma probe_trace:
  assumes "probe env (CacherClient tok) st = (r, st')"
  shows "\<exists>evs. trace st' = trace st @ Get TimeSeriesReq # evs \<and>
           count_list evs (Get TimeSeriesReq) = 0 \<and> count_list evs Authorize \<le> 1 \<and>
           (case r of
              Ok c' \<Rightarrow> (\<exists>tok'. c' = CacherClient tok') \<and>
                (filter is_failure evs = [] \<or>
                 filter is_failure evs = [GetError (UrlError errExpiredToken)] \<and> Authorize \<in> set evs)
            | Abort out \<Rightarrow> (\<exists>m. out = Fatal m) \<or>
                 filter is_failure evs = [GetError (UrlError errExpiredToken)] \<and> Authorize \<in> set evs)"
proof -
  obtain res st1 where g: "client_Get env (CacherClient tok) st TimeSeriesReq = (res, st1)" by force
  from client_Get_plain [OF _ g] obtain evs1 where
    t1: "trace st1 = trace st @ Get TimeSeriesReq # evs1" and a1: "Authorize \<notin> set evs1"
    and g1: "filter is_get evs1 = []"
    and f1: "filter is_failure evs1 = (case res of Inl e \<Rightarrow> [GetError e] | Inr _ \<Rightarrow> [])"
    by auto
  have c1: "count_list evs1 (Get TimeSeriesReq) = 0"
    using g1 by (auto simp: count_list_0_iff filter_empty_conv)
  have ca1: "count_list evs1 Authorize = 0" using a1 by (simp add: count_list_0_iff)
  show ?thesis
  proof (cases res)
    case (Inr response)
    with assms g have "r = Ok (CacherClient tok)" "st' = st1" by (auto simp: probe_def)
    with t1 c1 ca1 f1 Inr show ?thesis by auto
  next
    case (Inl err)
    show ?thesis
    proof (cases "err = UrlError errExpiredToken")
      case False
      then have "(case err of UrlError e \<Rightarrow> e \<noteq> errExpiredToken | _ \<Rightarrow> True)"
        by (cases err) auto
      with assms g Inl have "r = Abort (Fatal (FatalErr err))" "st' = st1"
        by (auto simp: probe_def)
      with t1 c1 ca1 show ?thesis by auto
    next
      case True
      obtain a st2 where au: "authorize env st1 = (a, st2)" by force
      from authorize_trace [OF au] obtain evs2 where
        t2: "trace st2 = trace st1 @ Authorize # evs2" and a2: "Authorize \<notin> set evs2"
        and g2: "filter is_get evs2 = []"
        and f2: "filter is_failure evs2 = (case a of Ok (Inl e) \<Rightarrow> [AuthorizeError e] | _ \<Rightarrow> [])"
        by blast
      have c2: "count_list evs2 (Get TimeSeriesReq) = 0"
        using g2 by (auto simp: count_list_0_iff filter_empty_conv)
      have ca2: "count_list evs2 Authorize = 0" using a2 by (simp add: count_list_0_iff)
      from assms g Inl True au have st': "st' = st2"
        by (auto simp: probe_def split: res.splits sum.splits)
      have t: "trace st' = trace st @ Get TimeSeriesReq # (evs1 @ Authorize # evs2)"
        using t1 t2 st' by simp
      have cnt: "count_list (evs1 @ Authorize # evs2) (Get TimeSeriesReq) = 0"
        "count_list (evs1 @ Authorize # evs2) Authorize \<le> 1"
        using c1 c2 ca1 ca2 by simp_all
      have ff: "filter is_failure (evs1 @ Authorize # evs2) =
          GetError (UrlError errExpiredToken) # (case a of Ok (Inl e) \<Rightarrow> [AuthorizeError e] | _ \<Rightarrow> [])"
        using f1 f2 Inl True by simp
      from assms g Inl True au
      have "case r of
              Ok c' \<Rightarrow> (\<exists>tok'. c' = CacherClient tok') \<and>
                (filter is_failure (evs1 @ Authorize # evs2) = [] \<or>
                 filter is_failure (evs1 @ Authorize # evs2) = [GetError (UrlError errExpiredToken)] \<and>
                   Authorize \<in> set (evs1 @ Authorize # evs2))
            | Abort out \<Rightarrow> (\<exists>m. out = Fatal m) \<or>
                 filter is_failure (evs1 @ Authorize # evs2) = [GetError (UrlError errExpiredToken)] \<and>
                   Authorize \<in> set (evs1 @ Authorize # evs2)"
        unfolding ff by (auto simp: probe_def split: res.splits sum.splits)
      with t cnt show ?thesis by blast
    qed
  qed
qed

lemma main_backup_trace:
  assumes "main_backup env fuel st = (out, st')"
  shows "\<exists>ev0 ev1. trace st' = trace st @ ev0 @ ev1 \<and> filter is_get ev0 = [] \<and>
           (ev1 = [] \<or> (\<exists>x. ev1 = Get TimeSeriesReq # x)) \<and>
           count_list ev1 Authorize \<le> 1 \<and> count_list ev1 (Get TimeSeriesReq) \<le> 3 \<and>
           ((\<exists>m. out = Fatal m) \<or> filter is_failure (ev0 @ ev1) = [] \<or>
            filter is_failure (ev0 @ ev1) = [GetError (UrlError errExpiredToken)] \<and>
              Authorize \<in> set ev1) \<and>
           (\<forall>t. tokenFromFile env st = Inr t \<and> clientSecret env \<noteq> [] \<longrightarrow> ev0 = [] \<and> ev1 \<noteq> [])"
proof (cases "clientSecret env = []")
  case True
  with assms have "out = Fatal FatalNoSecret" "st' = st" by (auto simp: main_backup_def)
  then have "trace st' = trace st @ [] @ [] \<and> filter is_get [] = [] \<and>
           ([] = [] \<or> (\<exists>x. [] = Get TimeSeriesReq # x)) \<and>
           count_list [] Authorize \<le> 1 \<and> count_list [] (Get TimeSeriesReq) \<le> 3 \<and>
           ((\<exists>m. out = Fatal m) \<or> filter is_failure ([] @ []) = [] \<or>
            filter is_failure ([] @ []) = [GetError (UrlError errExpiredToken)] \<and>
              Authorize \<in> set [])"
    by simp
  with True show ?thesis by blast
next
  case False
  note secret = this
  obtain r0 st0 where it: "initial_token env st = (r0, st0)" by force
  from initial_token_trace [OF it] obtain ev0 where
    t0: "trace st0 = trace st @ ev0" and g0: "filter is_get ev0 = []"
    and f0: "case r0 of Ok _ \<Rightarrow> filter is_failure ev0 = []
            | Abort out \<Rightarrow> (\<exists>m. out = Fatal m) \<or> filter is_failure ev0 = []"
    and k0: "\<forall>t. tokenFromFile env st = Inr t \<longrightarrow> ev0 = [] \<and> r0 = Ok t"
    by blast
  show ?thesis
  proof (cases r0)
    case (Abort o0)
    with assms it secret have "out = o0" "st' = st0" by (auto simp: main_backup_def)
    with t0 g0 f0 Abort k0
    have "trace st' = trace st @ ev0 @ [] \<and> filter is_get ev0 = [] \<and>
           ([] = [] \<or> (\<exists>x. [] = Get TimeSeriesReq # x)) \<and>
           count_list [] Authorize \<le> 1 \<and> count_list [] (Get TimeSeriesReq) \<le> 3 \<and>
           ((\<exists>m. out = Fatal m) \<or> filter is_failure (ev0 @ []) = [] \<or>
            filter is_failure (ev0 @ []) = [GetError (UrlError errExpiredToken)] \<and>
              Authorize \<in> set []) \<and>
           (\<forall>t. tokenFromFile env st = Inr t \<and> clientSecret env \<noteq> [] \<longrightarrow> ev0 = [] \<and> [] \<noteq> [])"
      by auto
    then show ?thesis by blast
  next
    case (Ok token)
    with f0 have f0': "filter is_failure ev0 = []" by simp
    obtain r1 st1 where pr: "probe env (CacherClient token) st0 = (r1, st1)" by force
    from probe_trace [OF pr] obtain ev1 where
      t1: "trace st1 = trace st0 @ Get TimeSeriesReq # ev1"
      and c1: "count_list ev1 (Get TimeSeriesReq) = 0" and a1: "count_list ev1 Authorize \<le> 1"
      and f1: "case r1 of
              Ok c' \<Rightarrow> (\<exists>tok'. c' = CacherClient tok') \<and>
                (filter is_failure ev1 = [] \<or>
                 filter is_failure ev1 = [GetError (UrlError errExpiredToken)] \<and> Authorize \<in> set ev1)
            | Abort out \<Rightarrow> (\<exists>m. out = Fatal m) \<or>
                 filter is_failure ev1 = [GetError (UrlError errExpiredToken)] \<and> Authorize \<in> set ev1"
      by blast
    show ?thesis
    proof (cases r1)
      case (Abort o1)
      with assms it secret Ok pr have "out = o1" "st' = st1" by (auto simp: main_backup_def)
      with t0 t1 g0 f0' c1 a1 f1 Abort
      have "trace st' = trace st @ ev0 @ (Get TimeSeriesReq # ev1) \<and> filter is_get ev0 = [] \<and>
           (Get TimeSeriesReq # ev1 = [] \<or> (\<exists>x. Get TimeSeriesReq # ev1 = Get TimeSeriesReq # x)) \<and>
           count_list (Get TimeSeriesReq # ev1) Authorize \<le> 1 \<and>
           count_list (Get TimeSeriesReq # ev1) (Get TimeSeriesReq) \<le> 3 \<and>
           ((\<exists>m. out = Fatal m) \<or> filter is_failure (ev0 @ (Get TimeSeriesReq # ev1)) = [] \<or>
            filter is_failure (ev0 @ (Get TimeSeriesReq # ev1)) = [GetError (UrlError errExpiredToken)] \<and>
              Authorize \<in> set (Get TimeSeriesReq # ev1)) \<and>
           (\<forall>t. tokenFromFile env st = Inr t \<and> clientSecret env \<noteq> [] \<longrightarrow>
              ev0 = [] \<and> Get TimeSeriesReq # ev1 \<noteq> [])"
        using k0 by auto
      then show ?thesis by blast
    next
      case (Ok c)
      with f1 obtain tok' where c: "c = CacherClient tok'"
        and f1': "filter is_failure ev1 = [] \<or>
                 filter is_failure ev1 = [GetError (UrlError errExpiredToken)] \<and> Authorize \<in> set ev1"
        by auto
      from assms it secret \<open>r0 = Ok token\<close> pr Ok
      have mb: "main_body env c fuel st1 = (out, st')" by (simp add: main_backup_def)
      from main_body_trace [OF mb] c obtain ev2 where
        t2: "trace st' = trace st1 @ ev2" and c2: "count_list ev2 (Get TimeSeriesReq) \<le> 2"
        and a2: "Authorize \<notin> set ev2"
        and f2: "filter is_failure ev2 = [] \<or> (\<exists>m. out = Fatal m)"
        by auto
      have ca2: "count_list ev2 Authorize = 0" using a2 by (simp add: count_list_0_iff)
      let ?e = "Get TimeSeriesReq # ev1 @ ev2"
      have "trace st' = trace st @ ev0 @ ?e" using t0 t1 t2 by simp
      moreover have "?e = [] \<or> (\<exists>x. ?e = Get TimeSeriesReq # x)" by simp
      moreover have "count_list ?e Authorize \<le> 1" using a1 ca2 by simp
      moreover have "count_list ?e (Get TimeSeriesReq) \<le> 3" using c1 c2 by simp
      moreover have "(\<exists>m. out = Fatal m) \<or> filter is_failure (ev0 @ ?e) = [] \<or>
            filter is_failure (ev0 @ ?e) = [GetError (UrlError errExpiredToken)] \<and> Authorize \<in> set ?e"
        using f0' f1' f2 by auto
      moreover have "\<forall>t. tokenFromFile env st = Inr t \<and> clientSecret env \<noteq> [] \<longrightarrow> ev0 = [] \<and> ?e \<noteq> []"
        using k0 by simp
      ultimately show ?thesis using g0 by blast
    qed
  qed
qed


lemma oauth1_Get_trace:
  assumes "oauth1_Get env tk st r = (res, st')"
  shows "trace st' = trace st @ Get r # (case res of Inl (_, e) \<Rightarrow> [GetError e] | Inr _ \<Rightarrow> [])"
  using assms by (auto simp: oauth1_Get_def Let_def split: sum.splits prod.splits)

lemma reauthorize_oauth1_trace:
  assumes "reauthorize_oauth1 env st = (r, st')"
  shows "\<exists>evs. trace st' = trace st @ Authorize # evs \<and> Authorize \<notin> set evs \<and>
           Get TimeSeriesReq \<notin> set evs \<and>
           (case r of Ok _ \<Rightarrow> (\<forall>e. AuthorizeError e \<notin> set evs) | Abort out \<Rightarrow> (\<exists>m. out = Fatal m))"
  using assms by (auto simp: reauthorize_oauth1_def Let_def split: sum.splits prod.splits)

lemma tries_loop_oauth1_second:
  "tries_loop_oauth1 env 1 response tk st =
     (case oauth1_Get env tk st TimeSeriesReq of
        (Inr r2, s2) \<Rightarrow> (Ok (Some r2, tk), s2)
      | (Inl (resp', err), s2) \<Rightarrow> (Abort (Fatal (FatalErr err)), s2))"
  by (simp add: tries_loop_oauth1.simps split: prod.splits sum.splits)

lemma tries_loop_oauth1_second_trace:
  assumes "tries_loop_oauth1 env 1 response tk st = (r, st')"
  shows "\<exists>evs. trace st' = trace st @ Get TimeSeriesReq # evs \<and> Authorize \<notin> set evs \<and>
           Get TimeSeriesReq \<notin> set evs \<and> (\<forall>e. AuthorizeError e \<notin> set evs) \<and>
           (\<forall>x tk'. r = Ok (x, tk') \<longrightarrow> x \<noteq> None)"
proof -
  obtain res s2 where g: "oauth1_Get env tk st TimeSeriesReq = (res, s2)" by force
  from oauth1_Get_trace [OF g] assms g show ?thesis
    unfolding tries_loop_oauth1_second by (auto split: sum.splits prod.splits)
qed

lemma tries_loop_oauth1_trace:
  assumes "tries_loop_oauth1 env 0 None tk st = (r, st')"
  shows "\<exists>evs. trace st' = trace st @ evs \<and> count_list evs Authorize \<le> 1 \<and>
           count_list evs (Get TimeSeriesReq) \<le> 2 \<and>
           (\<forall>x tk'. r = Ok (x, tk') \<longrightarrow> x \<noteq> None) \<and>
           ((\<forall>e. AuthorizeError e \<notin> set evs) \<or> (\<exists>m. r = Abort (Fatal m)))"
proof -
  obtain res st1 where g: "oauth1_Get env tk st TimeSeriesReq = (res, st1)" by force
  note t1 = oauth1_Get_trace [OF g]
  have second: "\<exists>evs. trace st' = trace st @ evs \<and> count_list evs Authorize \<le> 1 \<and>
           count_list evs (Get TimeSeriesReq) \<le> 2 \<and>
           (\<forall>x tk'. r = Ok (x, tk') \<longrightarrow> x \<noteq> None) \<and>
           ((\<forall>e. AuthorizeError e \<notin> set evs) \<or> (\<exists>m. r = Abort (Fatal m)))"
    if s: "tries_loop_oauth1 env 1 resp tk2 st2 = (r, st')"
      and t: "trace st2 = trace st @ pre" and a: "count_list pre Authorize \<le> 1"
      and c: "count_list pre (Get TimeSeriesReq) = 1" and e: "\<forall>e. AuthorizeError e \<notin> set pre"
    for resp tk2 st2 pre
  proof -
    from tries_loop_oauth1_second_trace [OF s] obtain evs where
      t2: "trace st' = trace st2 @ Get TimeSeriesReq # evs" and a2: "Authorize \<notin> set evs"
      and g2: "Get TimeSeriesReq \<notin> set evs" and e2: "\<forall>e. AuthorizeError e \<notin> set evs"
      and x2: "\<forall>x tk'. r = Ok (x, tk') \<longrightarrow> x \<noteq> None" by blast
    have "trace st' = trace st @ (pre @ Get TimeSeriesReq # evs)" using t t2 by simp
    moreover have "count_list (pre @ Get TimeSeriesReq # evs) Authorize \<le> 1"
      using a a2 by (simp add: count_list_0_iff)
    moreover have "count_list (pre @ Get TimeSeriesReq # evs) (Get TimeSeriesReq) \<le> 2"
      using c g2 by (simp add: count_list_0_iff)
    moreover have "\<forall>e. AuthorizeError e \<notin> set (pre @ Get TimeSeriesReq # evs)"
      using e e2 by simp
    ultimately show ?thesis using x2 by blast
  qed
  show ?thesis
  proof (cases res)
    case (Inr r1)
    with assms g have s: "tries_loop_oauth1 env 1 (Some r1) tk st1 = (r, st')"
      by (subst (asm) tries_loop_oauth1.simps) simp
    from t1 Inr have "trace st1 = trace st @ [Get TimeSeriesReq]" by simp
    from second [OF s this] show ?thesis by simp
  next
    case (Inl p)
    obtain resp' err where p: "p = (resp', err)" by (cases p)
    from t1 Inl p have tt: "trace st1 = trace st @ [Get TimeSeriesReq, GetError err]" by simp
    have stop: ?thesis if "st' = st1" "r = Abort out" "out = Panic \<or> (\<exists>m. out = Fatal m)" for out
    proof -
      have "trace st' = trace st @ [Get TimeSeriesReq, GetError err] \<and>
          count_list [Get TimeSeriesReq, GetError err] Authorize \<le> 1 \<and>
          count_list [Get TimeSeriesReq, GetError err] (Get TimeSeriesReq) \<le> 2 \<and>
          (\<forall>x tk'. r = Ok (x, tk') \<longrightarrow> x \<noteq> None) \<and>
          ((\<forall>e. AuthorizeError e \<notin> set [Get TimeSeriesReq, GetError err]) \<or> (\<exists>m. r = Abort (Fatal m)))"
        using that tt by auto
      then show ?thesis by blast
    qed
    show ?thesis
    proof (cases resp')
      case None
      with assms g Inl p have "st' = st1" "r = Abort Panic"
        by (auto simp: tries_loop_oauth1.simps [of env 0])
      then show ?thesis using stop by blast
    next
      case (Some r401)
      show ?thesis
      proof (cases "StatusCode r401 = 401")
        case False
        with assms g Inl p Some have "st' = st1" "r = Abort (Fatal (FatalErr err))"
          by (auto simp: tries_loop_oauth1.simps [of env 0])
        then show ?thesis using stop by blast
      next
        case True
        obtain ra st2 where ra: "reauthorize_oauth1 env st1 = (ra, st2)" by force
        from reauthorize_oauth1_trace [OF ra] obtain evs where
          t2: "trace st2 = trace st1 @ Authorize # evs" and a2: "Authorize \<notin> set evs"
          and g2: "Get TimeSeriesReq \<notin> set evs"
          and e2: "case ra of Ok _ \<Rightarrow> (\<forall>e. AuthorizeError e \<notin> set evs) | Abort out \<Rightarrow> (\<exists>m. out = Fatal m)"
          by blast
        let ?pre = "[Get TimeSeriesReq, GetError err] @ Authorize # evs"
        have t: "trace st2 = trace st @ ?pre" using tt t2 by simp
        have a: "count_list ?pre Authorize \<le> 1" using a2 by (simp add: count_list_0_iff)
        have c: "count_list ?pre (Get TimeSeriesReq) = 1" using g2 by (simp add: count_list_0_iff)
        show ?thesis
        proof (cases ra)
          case (Abort out)
          with e2 obtain m where "out = Fatal m" by auto
          with assms g Inl p Some True ra Abort have "st' = st2" "r = Abort (Fatal m)"
            by (auto simp: tries_loop_oauth1.simps [of env 0])
          with t a c have "trace st' = trace st @ ?pre \<and> count_list ?pre Authorize \<le> 1 \<and>
            count_list ?pre (Get TimeSeriesReq) \<le> 2 \<and>
            (\<forall>x tk'. r = Ok (x, tk') \<longrightarrow> x \<noteq> None) \<and>
            ((\<forall>e. AuthorizeError e \<notin> set ?pre) \<or> (\<exists>m. r = Abort (Fatal m)))"
            by simp
          then show ?thesis by blast
        next
          case (Ok tk2)
          with e2 have e: "\<forall>e. AuthorizeError e \<notin> set ?pre" by simp
          from assms g Inl p Some True ra Ok
          have s: "tries_loop_oauth1 env 1 (Some r401) tk2 st2 = (r, st')"
            by (subst (asm) tries_loop_oauth1.simps) simp
          from second [OF s t a c e] show ?thesis .
        qed
      qed
    qed
  qed
qed

lemma main_oauth1_trace:
  assumes "main_oauth1 env fuel st = (out, st')"
  shows "\<exists>evs. trace st' = trace st @ evs \<and> count_list evs Authorize \<le> 1 \<and>
           count_list evs (Get TimeSeriesReq) \<le> 2 \<and>
           ((\<forall>e. AuthorizeError e \<notin> set evs) \<or> (\<exists>m. out = Fatal m))"
proof (cases "consumerKey env = [] \<or> consumerSecret env = []")
  case True
  with assms have "trace st' = trace st @ [] \<and> count_list [] Authorize \<le> 1 \<and>
           count_list [] (Get TimeSeriesReq) \<le> 2 \<and>
           ((\<forall>e. AuthorizeError e \<notin> set []) \<or> (\<exists>m. out = Fatal m))"
    by (auto simp: main_oauth1_def)
  then show ?thesis by blast
next
  case False
  obtain r st1 where tl: "tries_loop_oauth1 env 0 None (accessTokenToken env, accessTokenSecret env) st = (r, st1)"
    by force
  from tries_loop_oauth1_trace [OF tl] obtain evs1 where
    t1: "trace st1 = trace st @ evs1" and a1: "count_list evs1 Authorize \<le> 1"
    and c1: "count_list evs1 (Get TimeSeriesReq) \<le> 2"
    and x1: "\<forall>x tk'. r = Ok (x, tk') \<longrightarrow> x \<noteq> None"
    and e1: "(\<forall>e. AuthorizeError e \<notin> set evs1) \<or> (\<exists>m. r = Abort (Fatal m))"
    by blast
  show ?thesis
  proof (cases r)
    case (Abort o1)
    with assms tl False have "out = o1" "st' = st1" by (auto simp: main_oauth1_def)
    with t1 a1 c1 e1 Abort show ?thesis by auto
  next
    case (Ok p)
    obtain x tk where p: "p = (x, tk)" by (cases p)
    with x1 Ok obtain response where x: "x = Some response" by auto
    from e1 Ok have e1': "\<forall>e. AuthorizeError e \<notin> set evs1" by simp
    from assms tl False Ok p x
    have mr: "main_rest env (OAuth1Client tk) fuel response st1 = (out, st')"
      by (simp add: main_oauth1_def)
    from main_rest_trace [OF mr] obtain evs2 where
      t2: "trace st' = trace st1 @ evs2" and g2: "Get TimeSeriesReq \<notin> set evs2"
      and a2: "Authorize \<notin> set evs2"
      and f2: "filter is_failure evs2 = [] \<or> (\<exists>m. out = Fatal m)"
      by auto
    have e2: "(\<forall>e. AuthorizeError e \<notin> set evs2) \<or> (\<exists>m. out = Fatal m)"
    proof (cases "\<exists>m. out = Fatal m")
      case False
      with f2 have "filter is_failure evs2 = []" by simp
      then have "\<forall>e. AuthorizeError e \<notin> set evs2" by (auto simp: filter_empty_conv)
      then show ?thesis by simp
    qed simp
    have "trace st' = trace st @ (evs1 @ evs2)" using t1 t2 by simp
    moreover have "count_list (evs1 @ evs2) Authorize \<le> 1"
      using a1 a2 by (simp add: count_list_0_iff)
    moreover have "count_list (evs1 @ evs2) (Get TimeSeriesReq) \<le> 2"
      using c1 g2 by (simp add: count_list_0_iff)
    moreover have "(\<forall>e. AuthorizeError e \<notin> set (evs1 @ evs2)) \<or> (\<exists>m. out = Fatal m)"
      using e1' e2 by auto
    ultimately show ?thesis by blast
  qed
qed


text \<open>
  Claim C3, as amended. In a run of backup.go that does not end with a fatal log message,
  no HTTP GET has returned an error, no reply has failed to decode and no authorization has
  failed, with one exception: a single GET may have failed with the expired-token error,
  and then the program has re-authorized. (Errors of the token source itself are not among
  these failures: the transport swallows the one that follows a successful round trip.)
\<close>

theorem failures_are_fatal:
  assumes "main_backup env fuel st = (out, st')"
    and "trace st = []"
  shows "(\<exists>m. out = Fatal m) \<or> filter is_failure (trace st') = [] \<or>
         (filter is_failure (trace st') = [GetError (UrlError errExpiredToken)] \<and>
          Authorize \<in> set (trace st'))"
proof -
  from main_backup_trace [OF assms(1)] obtain ev0 ev1 where
    "trace st' = trace st @ ev0 @ ev1"
    "(\<exists>m. out = Fatal m) \<or> filter is_failure (ev0 @ ev1) = [] \<or>
      filter is_failure (ev0 @ ev1) = [GetError (UrlError errExpiredToken)] \<and> Authorize \<in> set ev1"
    by blast
  with assms(2) show ?thesis by auto
qed

theorem failures_are_fatal_witness:
  "fst (main_backup env_expired 2 st0) = Returned \<and> trace st0 = [] \<and>
   filter is_failure (trace (snd (main_backup env_expired 2 st0))) =
     [GetError (UrlError errExpiredToken)] \<and>
   Authorize \<in> set (trace (snd (main_backup env_expired 2 st0)))"
proof -
  have r: "fst (main_backup env_expired 2 st0) = Returned" by code_simp
  then have h1: "main_backup env_expired 2 st0 = (Returned, snd (main_backup env_expired 2 st0))"
    by (metis prod.collapse)
  have h2: "trace st0 = []" by (simp add: st0_def)
  have n: "filter is_failure (trace (snd (main_backup env_expired 2 st0))) \<noteq> []" by code_simp
  from failures_are_fatal [OF h1 h2] n r h2 show ?thesis by simp
qed

text \<open>
  Claim C3 as stated fails: here the token source fails twice. The first failure makes the
  probing request fail and is answered by the re-authorization; the second one, after the
  round trip of the last request, is swallowed by the transport, and the run returns
  normally instead of ending with a fatal log message.
\<close>

theorem token_failure_after_reauthorization_not_fatal:
  "Source_Token env_swallow tok0 11 = Inl (ErrOther ''refresh failed'') \<and>
   main_backup env_swallow 2 st0 =
     (Returned,
      \<lparr>tick = 13, cache_file = Content ''a/r'', mux_registered = True, reuse_t = None,
         trace =
           [Get TimeSeriesReq, TokenError (ErrOther ''refresh failed''),
            GetError (UrlError errExpiredToken), Authorize,
            Stdout ''Please visit the following URL to authorize:\<newline>'',
            Stdout ''https://www.fitbit.com/oauth2/authorize\<newline>'',
            Get TimeSeriesReq, Get TimeSeriesReq,
            Get (WeightLogReq (39 * 24 * Hour)),
            TokenError (ErrOther ''refresh failed''),
            Stdout ''2013-07-30 18:00 65.9\<newline>'',
            Stdout ''2013-07-30 23:59 65.3\<newline>'']\<rparr>)"
  by code_simp

text \<open>
  Claim C6, as amended. The loop of the time-series request issues the request at most twice
  and an error of either request of the loop ends the run with a fatal log message; a whole
  run issues the request at most twice in the file token source and the OAuth 1 variants,
  and at most three times in backup.go, where the probing request is the same request.
\<close>

theorem time_series_requests_bounded:
  "count_list (trace (snd (tries_loop env c 0 None st))) (Get TimeSeriesReq)
     \<le> count_list (trace st) (Get TimeSeriesReq) + 2 \<and>
   (\<forall>e. GetError e \<in> set (drop (length (trace st)) (trace (snd (tries_loop env c 0 None st)))) \<longrightarrow>
        fst (tries_loop env c 0 None st) = Abort (Fatal (FatalErr e))) \<and>
   count_list (trace (snd (main_backup env fuel st))) (Get TimeSeriesReq)
     \<le> count_list (trace st) (Get TimeSeriesReq) + 3 \<and>
   count_list (trace (snd (main_filesource env fuel st))) (Get TimeSeriesReq)
     \<le> count_list (trace st) (Get TimeSeriesReq) + 2 \<and>
   count_list (trace (snd (main_oauth1 env fuel st))) (Get TimeSeriesReq)
     \<le> count_list (trace st) (Get TimeSeriesReq) + 2"
proof -
  obtain r st1 where tl: "tries_loop env c 0 None st = (r, st1)" by force
  from tries_loop_count [OF tl] obtain evs1 where
    t1: "trace st1 = trace st @ evs1" and c1: "count_list evs1 (Get TimeSeriesReq) \<le> 2"
    and e1: "\<forall>e. GetError e \<in> set evs1 \<longrightarrow> r = Abort (Fatal (FatalErr e))" by blast
  have p1: "count_list (trace st1) (Get TimeSeriesReq) \<le> count_list (trace st) (Get TimeSeriesReq) + 2"
    using t1 c1 by simp
  have p2: "\<forall>e. GetError e \<in> set (drop (length (trace st)) (trace st1)) \<longrightarrow>
      r = Abort (Fatal (FatalErr e))"
    using t1 e1 by simp
  obtain o2 st2 where mb: "main_backup env fuel st = (o2, st2)" by force
  from main_backup_trace [OF mb] obtain ev0 ev1 where
    t2: "trace st2 = trace st @ ev0 @ ev1" and g0: "filter is_get ev0 = []"
    and c2: "count_list ev1 (Get TimeSeriesReq) \<le> 3" by blast
  have "count_list ev0 (Get TimeSeriesReq) = 0"
    using g0 by (auto simp: count_list_0_iff filter_empty_conv)
  with t2 c2 have p3: "count_list (trace st2) (Get TimeSeriesReq)
      \<le> count_list (trace st) (Get TimeSeriesReq) + 3" by simp
  obtain o3 st3 where mf: "main_filesource env fuel st = (o3, st3)" by force
  have p4: "count_list (trace st3) (Get TimeSeriesReq) \<le> count_list (trace st) (Get TimeSeriesReq) + 2"
  proof (cases "clientSecret env = []")
    case True
    with mf show ?thesis by (auto simp: main_filesource_def)
  next
    case False
    with mf have "main_body env (FileSourceClient \<lparr>CacheFile = cachePath env, AuthCode = True\<rparr>) fuel st
        = (o3, st3)" by (simp add: main_filesource_def)
    from main_body_trace [OF this] show ?thesis by auto
  qed
  obtain o4 st4 where mo: "main_oauth1 env fuel st = (o4, st4)" by force
  from main_oauth1_trace [OF mo]
  have p5: "count_list (trace st4) (Get TimeSeriesReq) \<le> count_list (trace st) (Get TimeSeriesReq) + 2"
    by auto
  from p1 p2 p3 p4 p5 show ?thesis unfolding tl mb mf mo by simp
qed

theorem time_series_requests_bounded_witness:
  "GetError (UrlError (ErrOther ''connection refused''))
     \<in> set (drop (length (trace st0)) (trace (snd (tries_loop env_refused (CacherClient tok0) 0 None st0)))) \<and>
   fst (tries_loop env_refused (CacherClient tok0) 0 None st0) =
     Abort (Fatal (FatalErr (UrlError (ErrOther ''connection refused'')))) \<and>
   count_list (trace (snd (tries_loop env_refused (CacherClient tok0) 0 None st0))) (Get TimeSeriesReq)
     \<le> count_list (trace st0) (Get TimeSeriesReq) + 2"
proof -
  have h: "GetError (UrlError (ErrOther ''connection refused''))
     \<in> set (drop (length (trace st0)) (trace (snd (tries_loop env_refused (CacherClient tok0) 0 None st0))))"
    by code_simp
  from time_series_requests_bounded [of env_refused "CacherClient tok0" st0 2] h
  show ?thesis by blast
qed

text \<open>
  Claim C6 as stated fails for backup.go: in a run where every request succeeds, the
  time-series request is issued three times, once to probe for an expired token and twice
  by the loop.
\<close>

theorem time_series_requested_three_times:
  "fst (main_backup env0 2 st0) = Returned \<and>
   count_list (trace (snd (main_backup env0 2 st0))) (Get TimeSeriesReq) = 3"
  by code_simp






lemma one_prompt_update [simp]:
  "one_prompt st (step st1) b = one_prompt st st1 b"
  "one_prompt st (st1\<lparr>reuse_t := x\<rparr>) b = one_prompt st st1 b"
  by (simp_all add: one_prompt_def)
















lemma print_weights_frame:
  "print_weights ws st = (p, st') \<Longrightarrow> cache_file st' = cache_file st \<and> reuse_t st' = reuse_t st"
proof (induction ws arbitrary: st)
  case Nil
  then show ?case by simp
next
  case (Cons w ws)
  show ?case
  proof (cases "5 \<le> length (Time w)")
    case True
    with Cons.prems have "print_weights ws (emit (Stdout (Date w @ '' '' @ take 5 (Time w) @ '' ''
        @ format_1f (Weight w) @ ''\<newline>'')) st) = (p, st')"
      by (simp add: print_entry_def slice_0_5_def)
    from Cons.IH [OF this] show ?thesis by simp
  next
    case False
    with Cons.prems show ?thesis by (simp add: print_entry_panic)
  qed
qed

lemma client_Get_cached_valid:
  assumes valid: "\<forall>now. token_Valid env t now"
    and parse: "json_Unmarshal_token env content = Some t"
    and path: "CacheFile src \<noteq> []"
    and inv: "cache_file st = Content content" "reuse_t st = None \<or> reuse_t st = Some t"
    and get: "client_Get env (FileSourceClient src) st r = (res, st')"
  shows "cache_file st' = Content content \<and> reuse_t st' = Some t \<and>
         trace st' = trace st @ Get r # (case res of Inl e \<Rightarrow> [GetError e] | Inr _ \<Rightarrow> [])"
proof -
  have tok: "ReuseTokenSource_Token env src (emit (Get r) st) =
      (Inr t, (step (emit (Get r) st))\<lparr>reuse_t := Some t\<rparr>)"
    using inv(2)
  proof
    assume "reuse_t st = None"
    with valid parse path inv(1) show ?thesis
      by (simp add: ReuseTokenSource_Token_def FileTokenSource_Token_def cachedToken_def)
  next
    assume s: "reuse_t st = Some t"
    have "(step (emit (Get r) st))\<lparr>reuse_t := Some t\<rparr> = step (emit (Get r) st)"
      using s by (simp add: step_def emit_def)
    with valid s show ?thesis by (simp add: ReuseTokenSource_Token_def)
  qed
  show ?thesis
    using get inv(1) unfolding client_Get_def http_Client_Get_def oauth2_RoundTrip_def
    by (auto simp: tok split: sum.splits)
qed

lemma window_loop_cached_valid:
  assumes valid: "\<forall>now. token_Valid env t now"
    and parse: "json_Unmarshal_token env content = Some t"
    and path: "CacheFile src \<noteq> []"
  shows "cache_file st = Content content \<Longrightarrow> reuse_t st = Some t \<Longrightarrow>
     window_loop fuel env (FileSourceClient src) st e ws = (out, st') \<Longrightarrow>
     cache_file st' = Content content \<and> reuse_t st' = Some t \<and>
     (\<exists>evs. trace st' = trace st @ evs \<and> Authorize \<notin> set evs)"
proof (induction fuel arbitrary: st e ws)
  case 0
  then show ?case by simp
next
  case (Suc fuel)
  show ?case
  proof (cases "e < time_Now env (tick st)")
    case False
    with Suc.prems show ?thesis by auto
  next
    case True
    obtain res st1 where g: "client_Get env (FileSourceClient src) (step st)
        (WeightLogReq (e + 30 * 24 * Hour)) = (res, st1)" by force
    from client_Get_cached_valid [OF valid parse path _ _ g] Suc.prems(1,2)
    have c1: "cache_file st1 = Content content" and r1: "reuse_t st1 = Some t"
      and t1: "trace st1 = trace st @ Get (WeightLogReq (e + 30 * 24 * Hour)) #
          (case res of Inl e \<Rightarrow> [GetError e] | Inr _ \<Rightarrow> [])"
      by auto
    let ?G = "Get (WeightLogReq (e + 30 * 24 * Hour))"
    show ?thesis
    proof (cases res)
      case (Inl err)
      with Suc.prems True g have "st' = st1" by auto
      with c1 r1 t1 Inl show ?thesis by auto
    next
      case (Inr response)
      note res = this
      show ?thesis
      proof (cases "Decode_weights env (Body response) ws")
        case (Inl err)
        with Suc.prems True g res have "st' = emit (DecodeError err) st1" by auto
        with c1 r1 t1 res show ?thesis by auto
      next
        case (Inr ws')
        obtain p st2 where pw: "print_weights ws' st1 = (p, st2)" by force
        from print_weights_frame [OF pw] c1 r1
        have c2: "cache_file st2 = Content content" and r2: "reuse_t st2 = Some t" by auto
        from print_weights_ext [OF pw] obtain evs2 where
          t2: "trace st2 = trace st1 @ evs2" and q2: "\<forall>e \<in> set evs2. is_quiet e"
          by (auto simp: extends_def)
        note k2 = quiet_facts(1) [OF q2]
        show ?thesis
        proof (cases p)
          case (Some out2)
          with Suc.prems True g res Inr pw have "st' = st2" by auto
          with c2 r2 t1 t2 res k2 show ?thesis by auto
        next
          case None
          with Suc.prems True g res Inr pw
          have "window_loop fuel env (FileSourceClient src) st2 (e + 30 * 24 * Hour) ws' = (out, st')"
            by auto
          from Suc.IH [OF c2 r2 this] obtain evs3 where
            "cache_file st' = Content content" "reuse_t st' = Some t"
            "trace st' = trace st2 @ evs3" "Authorize \<notin> set evs3" by blast
          moreover then have "trace st' = trace st @ (?G # evs2 @ evs3)"
            "Authorize \<notin> set (?G # evs2 @ evs3)"
            using t1 t2 res k2 by auto
          ultimately show ?thesis by blast
        qed
      qed
    qed
  qed
qed

lemma main_filesource_cached_valid:
  assumes valid: "\<forall>now. token_Valid env t now"
    and parse: "json_Unmarshal_token env content = Some t"
    and path: "cachePath env \<noteq> []"
    and secret: "clientSecret env \<noteq> []"
    and cached: "cache_file st = Content content"
    and fresh: "reuse_t st = None"
    and run: "main_filesource env fuel st = (out, st')"
  shows "reuse_t st' = Some t \<and> cache_file st' = Content content \<and>
         (\<exists>evs. trace st' = trace st @ evs \<and> Authorize \<notin> set evs)"
proof -
  let ?src = "\<lparr>CacheFile = cachePath env, AuthCode = True\<rparr>"
  let ?c = "FileSourceClient ?src"
  have p: "CacheFile ?src \<noteq> []" using path by simp
  from run secret have mb: "main_body env ?c fuel st = (out, st')"
    by (simp add: main_filesource_def)
  obtain res1 st1 where g1: "client_Get env ?c st TimeSeriesReq = (res1, st1)" by force
  from client_Get_cached_valid [OF valid parse p cached _ g1] fresh
  have c1: "cache_file st1 = Content content" and r1: "reuse_t st1 = Some t"
    and t1: "trace st1 = trace st @ Get TimeSeriesReq #
        (case res1 of Inl e \<Rightarrow> [GetError e] | Inr _ \<Rightarrow> [])" by auto
  show ?thesis
  proof (cases res1)
    case (Inl err)
    with mb g1 have "st' = st1" by (auto simp: main_body_def tries_loop_unroll)
    with c1 r1 t1 Inl show ?thesis by auto
  next
    case (Inr resp1)
    note res1 = this
    obtain res2 st2 where g2: "client_Get env ?c st1 TimeSeriesReq = (res2, st2)" by force
    from client_Get_cached_valid [OF valid parse p c1 _ g2] r1
    have c2: "cache_file st2 = Content content" and r2: "reuse_t st2 = Some t"
      and t2: "trace st2 = trace st1 @ Get TimeSeriesReq #
        (case res2 of Inl e \<Rightarrow> [GetError e] | Inr _ \<Rightarrow> [])" by auto
    show ?thesis
    proof (cases res2)
      case (Inl err)
      with mb g1 g2 res1 have "st' = st2" by (auto simp: main_body_def tries_loop_unroll)
      with c2 r2 t1 t2 res1 Inl show ?thesis by auto
    next
      case (Inr response)
      with mb g1 g2 res1 have mr: "main_rest env ?c fuel response st2 = (out, st')"
        by (simp add: main_body_def tries_loop_unroll)
      have t12: "trace st2 = trace st @ [Get TimeSeriesReq, Get TimeSeriesReq]"
        using t1 t2 res1 Inr by simp
      show ?thesis
      proof (cases "Decode_timeseries env (Body response)")
        case (Inl err)
        with mr have "st' = emit (DecodeError err) st2" by (auto simp: main_rest_def)
        with c2 r2 t12 show ?thesis by auto
      next
        case (Inr Entries)
        note dec = this
        show ?thesis
        proof (cases "Entries = []")
          case True
          with mr dec have "st' = emit (Log ''The fitbit API returned no values.'') st2"
            by (auto simp: main_rest_def)
          with c2 r2 t12 show ?thesis by auto
        next
          case False
          show ?thesis
          proof (cases "time_Parse env (DateTime (Entries ! 0))")
            case (Inl err)
            with mr dec False have "st' = st2" by (auto simp: main_rest_def)
            with c2 r2 t12 show ?thesis by auto
          next
            case (Inr endDate)
            with mr dec False
            have "window_loop fuel env ?c st2 (endDate + (- 24) * Hour) [] = (out, st')"
              by (simp add: main_rest_def)
            from window_loop_cached_valid [OF valid parse p c2 r2 this] obtain evs where
              "cache_file st' = Content content" "reuse_t st' = Some t"
              "trace st' = trace st2 @ evs" "Authorize \<notin> set evs" by blast
            moreover then have "trace st' = trace st @ ([Get TimeSeriesReq, Get TimeSeriesReq] @ evs)"
              "Authorize \<notin> set ([Get TimeSeriesReq, Get TimeSeriesReq] @ evs)"
              using t12 by auto
            ultimately show ?thesis by blast
          qed
        qed
      qed
    qed
  qed
qed

lemma main_backup_cached:
  assumes tf: "tokenFromFile env st = Inr t"
    and secret: "clientSecret env \<noteq> []"
  shows "main_backup env fuel st =
           (case probe env (CacherClient t) st of
              (Abort out, st2) \<Rightarrow> (out, st2)
            | (Ok c, st2) \<Rightarrow> main_body env c fuel st2)"
    and "client_Get env (CacherClient t) st TimeSeriesReq = (Inr response, st1) \<Longrightarrow>
         main_backup env fuel st = main_body env (CacherClient t) fuel st1 \<and>
         (\<exists>evs. trace (snd (main_backup env fuel st)) = trace st @ evs \<and> Authorize \<notin> set evs)"
proof -
  show eq: "main_backup env fuel st =
           (case probe env (CacherClient t) st of
              (Abort out, st2) \<Rightarrow> (out, st2)
            | (Ok c, st2) \<Rightarrow> main_body env c fuel st2)"
    using tf secret by (simp add: main_backup_def initial_token_def)
  assume g: "client_Get env (CacherClient t) st TimeSeriesReq = (Inr response, st1)"
  then have pr: "probe env (CacherClient t) st = (Ok (CacherClient t), st1)"
    by (simp add: probe_def)
  with eq have m: "main_backup env fuel st = main_body env (CacherClient t) fuel st1" by simp
  from client_Get_plain [OF _ g] obtain evs1 where
    t1: "trace st1 = trace st @ Get TimeSeriesReq # evs1" and a1: "Authorize \<notin> set evs1" by auto
  obtain out st' where mb: "main_body env (CacherClient t) fuel st1 = (out, st')" by force
  from main_body_trace [OF mb] obtain evs2 where
    t2: "trace st' = trace st1 @ evs2" and a2: "Authorize \<notin> set evs2" by auto
  have "trace st' = trace st @ (Get TimeSeriesReq # evs1 @ evs2)"
    "Authorize \<notin> set (Get TimeSeriesReq # evs1 @ evs2)"
    using t1 t2 a1 a2 by auto
  with m mb show "main_backup env fuel st = main_body env (CacherClient t) fuel st1 \<and>
         (\<exists>evs. trace (snd (main_backup env fuel st)) = trace st @ evs \<and> Authorize \<notin> set evs)"
    by (metis snd_conv)
qed





text \<open>
  Claim C7. When the token cache file exists and its content parses as a token, backup.go
  takes that token without calling \<open>authorize\<close>, and a run (with a client secret) is the run
  of the probing request and of the rest of \<open>main\<close> with the client built from that token: its
  first event is the probing request, and when the probing request succeeds the whole run is
  made with that client and without any call of \<open>authorize\<close>. In the file token source
  variant, when moreover the token is valid, \<open>FileTokenSource.Token\<close> and the reusing token
  source above it return the cached token and neither prompt nor write; and when the token
  stays valid, a whole run keeps that token as its credential and never asks for an
  authorization code.
\<close>

theorem cached_token_reused:
  assumes "cache_file st = Content content"
    and "json_Unmarshal_token env content = Some t"
  shows "initial_token env st = (Ok t, st) \<and>
         (clientSecret env \<noteq> [] \<longrightarrow>
            (\<exists>evs. trace (snd (main_backup env fuel st)) = trace st @ Get TimeSeriesReq # evs) \<and>
            main_backup env fuel st =
              (case probe env (CacherClient t) st of
                 (Abort out, st2) \<Rightarrow> (out, st2)
               | (Ok c, st2) \<Rightarrow> main_body env c fuel st2) \<and>
            (\<forall>response st1.
               client_Get env (CacherClient t) st TimeSeriesReq = (Inr response, st1) \<longrightarrow>
               main_backup env fuel st = main_body env (CacherClient t) fuel st1 \<and>
               (\<exists>evs. trace (snd (main_backup env fuel st)) = trace st @ evs \<and>
                      Authorize \<notin> set evs))) \<and>
         (CacheFile src \<noteq> [] \<and> token_Valid env t (time_Now env (tick st)) \<longrightarrow>
            FileTokenSource_Token env src st = (Inr t, step st) \<and>
            (reuse_t st = None \<longrightarrow>
               ReuseTokenSource_Token env src st = (Inr t, (step st)\<lparr>reuse_t := Some t\<rparr>))) \<and>
         (clientSecret env \<noteq> [] \<and> cachePath env \<noteq> [] \<and> (\<forall>now. token_Valid env t now) \<and>
          reuse_t st = None \<longrightarrow>
            reuse_t (snd (main_filesource env fuel st)) = Some t \<and>
            cache_file (snd (main_filesource env fuel st)) = Content content \<and>
            (\<exists>evs. trace (snd (main_filesource env fuel st)) = trace st @ evs \<and>
                   Authorize \<notin> set evs))"
proof -
  have tf: "tokenFromFile env st = Inr t" using assms by (simp add: tokenFromFile_def)
  then have p1: "initial_token env st = (Ok t, st)" by (simp add: initial_token_def)
  have p2: "\<exists>evs. trace (snd (main_backup env fuel st)) = trace st @ Get TimeSeriesReq # evs"
    if "clientSecret env \<noteq> []"
  proof -
    obtain out st' where mb: "main_backup env fuel st = (out, st')" by force
    from main_backup_trace [OF mb] tf that obtain ev1 where
      "trace st' = trace st @ ev1" "ev1 = [] \<or> (\<exists>x. ev1 = Get TimeSeriesReq # x)" "ev1 \<noteq> []"
      by auto
    then show ?thesis unfolding mb by auto
  qed
  have p3: "FileTokenSource_Token env src st = (Inr t, step st)"
    if "CacheFile src \<noteq> []" "token_Valid env t (time_Now env (tick st))"
    using that assms by (simp add: FileTokenSource_Token_def cachedToken_def)
  then have p4: "ReuseTokenSource_Token env src st = (Inr t, (step st)\<lparr>reuse_t := Some t\<rparr>)"
    if "CacheFile src \<noteq> []" "token_Valid env t (time_Now env (tick st))" "reuse_t st = None"
    using that by (simp add: ReuseTokenSource_Token_def)
  have p5: "reuse_t (snd (main_filesource env fuel st)) = Some t \<and>
            cache_file (snd (main_filesource env fuel st)) = Content content \<and>
            (\<exists>evs. trace (snd (main_filesource env fuel st)) = trace st @ evs \<and>
                   Authorize \<notin> set evs)"
    if "clientSecret env \<noteq> []" "cachePath env \<noteq> []" "\<forall>now. token_Valid env t now"
      "reuse_t st = None"
  proof -
    obtain out st' where mf: "main_filesource env fuel st = (out, st')" by force
    from main_filesource_cached_valid [OF that(3) assms(2) that(2) that(1) assms(1) that(4) mf]
    show ?thesis unfolding mf by simp
  qed
  from p1 p2 main_backup_cached [OF tf] p3 p4 p5 show ?thesis by blast
qed

theorem cached_token_reused_witness:
  "cache_file st0 = Content ''a/r'' \<and> json_Unmarshal_token env_keyed ''a/r'' = Some tok0 \<and>
   clientSecret env_keyed \<noteq> [] \<and>
   fst (client_Get env_keyed (CacherClient tok0) st0 TimeSeriesReq) = Inr resp_ts \<and>
   initial_token env_keyed st0 = (Ok tok0, st0) \<and>
   main_backup env_keyed 2 st0 =
     main_body env_keyed (CacherClient tok0) 2
       (snd (client_Get env_keyed (CacherClient tok0) st0 TimeSeriesReq)) \<and>
   (\<exists>evs. trace (snd (main_backup env_keyed 2 st0)) = trace st0 @ evs \<and> Authorize \<notin> set evs) \<and>
   fst (main_backup env_keyed 2 st0) = Returned \<and>
   fst (main_backup env_keyed 2 st_absent) = Fatal (FatalErr (ErrOther ''access denied'')) \<and>
   json_Unmarshal_token env_always_valid ''a/r'' = Some tok0 \<and>
   clientSecret env_always_valid \<noteq> [] \<and> cachePath env_always_valid \<noteq> [] \<and>
   CacheFile src0 \<noteq> [] \<and> (\<forall>now. token_Valid env_always_valid tok0 now) \<and> reuse_t st0 = None \<and>
   FileTokenSource_Token env_always_valid src0 st0 = (Inr tok0, step st0) \<and>
   ReuseTokenSource_Token env_always_valid src0 st0 = (Inr tok0, (step st0)\<lparr>reuse_t := Some tok0\<rparr>) \<and>
   reuse_t (snd (main_filesource env_always_valid 2 st0)) = Some tok0 \<and>
   (\<exists>evs. trace (snd (main_filesource env_always_valid 2 st0)) = trace st0 @ evs \<and>
          Authorize \<notin> set evs)"
proof -
  have h1: "cache_file st0 = Content ''a/r''" by (simp add: st0_def)
  have h2: "json_Unmarshal_token env_keyed ''a/r'' = Some tok0" by code_simp
  have h3: "clientSecret env_keyed \<noteq> []" by code_simp
  have g: "fst (client_Get env_keyed (CacherClient tok0) st0 TimeSeriesReq) = Inr resp_ts"
    by code_simp
  then have h4: "client_Get env_keyed (CacherClient tok0) st0 TimeSeriesReq =
      (Inr resp_ts, snd (client_Get env_keyed (CacherClient tok0) st0 TimeSeriesReq))"
    by (metis prod.collapse)
  have r: "fst (main_backup env_keyed 2 st0) = Returned" by code_simp
  have a: "fst (main_backup env_keyed 2 st_absent) = Fatal (FatalErr (ErrOther ''access denied''))"
    by code_simp
  have k2: "json_Unmarshal_token env_always_valid ''a/r'' = Some tok0" by code_simp
  have k3: "clientSecret env_always_valid \<noteq> []" by code_simp
  have k4: "cachePath env_always_valid \<noteq> []" by code_simp
  have k5: "CacheFile src0 \<noteq> []" by (simp add: src0_def)
  have k6: "\<forall>now. token_Valid env_always_valid tok0 now" by (simp add: env_always_valid_def)
  have k7: "reuse_t st0 = None" by (simp add: st0_def)
  have first: "initial_token env_keyed st0 = (Ok tok0, st0) \<and>
     main_backup env_keyed 2 st0 =
       main_body env_keyed (CacherClient tok0) 2
         (snd (client_Get env_keyed (CacherClient tok0) st0 TimeSeriesReq)) \<and>
     (\<exists>evs. trace (snd (main_backup env_keyed 2 st0)) = trace st0 @ evs \<and> Authorize \<notin> set evs)"
    using cached_token_reused [OF h1 h2, of 2] h3 h4 by blast
  have second: "FileTokenSource_Token env_always_valid src0 st0 = (Inr tok0, step st0) \<and>
     ReuseTokenSource_Token env_always_valid src0 st0 = (Inr tok0, (step st0)\<lparr>reuse_t := Some tok0\<rparr>) \<and>
     reuse_t (snd (main_filesource env_always_valid 2 st0)) = Some tok0 \<and>
     (\<exists>evs. trace (snd (main_filesource env_always_valid 2 st0)) = trace st0 @ evs \<and>
          Authorize \<notin> set evs)"
    using cached_token_reused [OF h1 k2, of 2 src0] k3 k4 k5 k6 k7 by blast
  from first second h1 h2 h3 g r a k2 k3 k4 k5 k6 k7 show ?thesis by blast
qed

end
